theory Spec2Isabelle
  imports Main "HOL-Library.Word" "HOL-Library.Log_Nat"
begin

section \<open>JavaScript values used by \<^verbatim>\<open>src/lambda/node.js\<close>\<close>

subsection \<open>Strings\<close>

text \<open>
  A JavaScript string is a sequence of 16-bit code units. String literals of the source
  are ASCII and are written with \<open>lit\<close>.
\<close>

type_synonym jschar = "16 word"
type_synonym jsstring = "jschar list"

definition lit :: "string \<Rightarrow> jsstring" where
  "lit s = map of_char s"

text \<open>\<^verbatim>\<open>s.endsWith(suffix)\<close>\<close>

definition endsWith :: "jsstring \<Rightarrow> jsstring \<Rightarrow> bool" where
  "endsWith s suffix =
     (length suffix \<le> length s \<and> drop (length s - length suffix) s = suffix)"

text \<open>
  \<^verbatim>\<open>s.split(sep)\<close> for a separator of one code unit (the source only splits at
  \<^verbatim>\<open>"/"\<close> and \<^verbatim>\<open>"."\<close>). The result always has at least one element.
\<close>

fun split :: "jsstring \<Rightarrow> jschar \<Rightarrow> jsstring list" where
  "split [] sep = [[]]"
| "split (c # cs) sep =
     (if c = sep then [] # split cs sep
      else (case split cs sep of
              seg # segs \<Rightarrow> (c # seg) # segs
            | [] \<Rightarrow> [[c]]))"

text \<open>
  White space and line terminators (\<^verbatim>\<open>StrWhiteSpaceChar\<close> of ECMAScript): what
  \<^verbatim>\<open>parseFloat\<close> skips at the start and \<^verbatim>\<open>trim\<close> removes at both ends.
\<close>

definition is_white_space :: "jschar \<Rightarrow> bool" where
  "is_white_space c \<longleftrightarrow>
     c \<in> {0x9, 0xA, 0xB, 0xC, 0xD, 0x20, 0xA0, 0x1680, 0x2028, 0x2029, 0x202F, 0x205F,
          0x3000, 0xFEFF}
     \<or> (0x2000 \<le> c \<and> c \<le> 0x200A)"

definition trim :: "jsstring \<Rightarrow> jsstring" where
  "trim s = rev (dropWhile is_white_space (rev (dropWhile is_white_space s)))"

definition is_digit :: "jschar \<Rightarrow> bool" where
  "is_digit c \<longleftrightarrow> 0x30 \<le> c \<and> c \<le> 0x39"

definition digit_value :: "jschar \<Rightarrow> int" where
  "digit_value c = uint c - 48"

text \<open>The mathematical value of a string of decimal digits.\<close>

definition digits_value :: "jsstring \<Rightarrow> int" where
  "digits_value ds = foldl (\<lambda>acc c. 10 * acc + digit_value c) 0 ds"

subsection \<open>Numbers\<close>

text \<open>
  A JavaScript Number is an IEEE 754 binary64 value: not-a-number, the two infinities,
  negative zero, or a finite value (\<open>Fin 0\<close> is positive zero). Finite values are
  kept as the rational they denote; every operation rounds its exact result with
  \<open>round64\<close> (to nearest, ties to even, overflow to infinity).
\<close>

datatype number = NaN | PosInf | NegInf | NegZero | Fin rat

definition pow2 :: "int \<Rightarrow> rat" where
  "pow2 k = (if 0 \<le> k then 2 ^ nat k else 1 / 2 ^ nat (- k))"

text \<open>\<open>ilog2 r\<close> is the binary exponent of a positive rational: \<open>2^e \<le> r < 2^(e+1)\<close>.\<close>

definition ilog2 :: "rat \<Rightarrow> int" where
  "ilog2 r = (case quotient_of r of (p, q) \<Rightarrow>
     (let d = bitlen p - bitlen q in if pow2 d \<le> r then d else d - 1))"

definition round_half_even :: "rat \<Rightarrow> int" where
  "round_half_even x =
     (let f = \<lfloor>x\<rfloor>; d = x - of_int f
      in if d < 1 / 2 then f else if 1 / 2 < d then f + 1 else if even f then f else f + 1)"

text \<open>
  The spacing of binary64 values around \<open>r\<close> is \<open>2^(e - 52)\<close>, where the exponent
  \<open>e\<close> is at least \<open>-1022\<close> (below that the values are subnormal). A magnitude
  that rounds to \<open>2^1024\<close> or more overflows to infinity, one that rounds to 0
  underflows to a zero of the same sign.
\<close>

definition round64 :: "rat \<Rightarrow> number" where
  "round64 r =
     (if r = 0 then Fin 0
      else let q = pow2 (max (ilog2 \<bar>r\<bar>) (- 1022) - 52);
               m = of_int (round_half_even (\<bar>r\<bar> / q)) * q
           in if m = 0 then (if r < 0 then NegZero else Fin 0)
              else if 1024 \<le> ilog2 m then (if r < 0 then NegInf else PosInf)
              else Fin (if r < 0 then - m else m))"

text \<open>\<^verbatim>\<open>isNaN(n)\<close> on a Number.\<close>

definition isNaN :: "number \<Rightarrow> bool" where
  "isNaN n \<longleftrightarrow> n = NaN"

definition is_negative :: "number \<Rightarrow> bool" where
  "is_negative n = (case n of NegInf \<Rightarrow> True | NegZero \<Rightarrow> True | Fin r \<Rightarrow> r < 0 | _ \<Rightarrow> False)"

definition is_zero :: "number \<Rightarrow> bool" where
  "is_zero n \<longleftrightarrow> n = NegZero \<or> n = Fin 0"

definition is_infinite :: "number \<Rightarrow> bool" where
  "is_infinite n \<longleftrightarrow> n = PosInf \<or> n = NegInf"

text \<open>The rational denoted by a finite Number (both zeros denote 0).\<close>

definition value_of :: "number \<Rightarrow> rat" where
  "value_of n = (case n of Fin r \<Rightarrow> r | _ \<Rightarrow> 0)"

definition js_negate :: "number \<Rightarrow> number" where
  "js_negate n =
     (case n of
        NaN \<Rightarrow> NaN
      | PosInf \<Rightarrow> NegInf
      | NegInf \<Rightarrow> PosInf
      | NegZero \<Rightarrow> Fin 0
      | Fin r \<Rightarrow> (if r = 0 then NegZero else Fin (- r)))"

text \<open>\<^verbatim>\<open>a + b\<close> on Numbers.\<close>

definition js_add :: "number \<Rightarrow> number \<Rightarrow> number" where
  "js_add a b =
     (if a = NaN \<or> b = NaN then NaN
      else if is_infinite a then (if is_infinite b \<and> a \<noteq> b then NaN else a)
      else if is_infinite b then b
      else if a = NegZero \<and> b = NegZero then NegZero
      else round64 (value_of a + value_of b))"

text \<open>\<^verbatim>\<open>a / b\<close> on Numbers.\<close>

definition js_divide :: "number \<Rightarrow> number \<Rightarrow> number" where
  "js_divide a b =
     (let neg = (is_negative a \<noteq> is_negative b) in
      if a = NaN \<or> b = NaN then NaN
      else if is_infinite a then
        (if is_infinite b then NaN else if neg then NegInf else PosInf)
      else if is_infinite b then (if neg then NegZero else Fin 0)
      else if is_zero b then
        (if is_zero a then NaN else if neg then NegInf else PosInf)
      else if is_zero a then (if neg then NegZero else Fin 0)
      else round64 (value_of a / value_of b))"

text \<open>\<^verbatim>\<open>a < b\<close> on Numbers (false when either is NaN; the two zeros are equal).\<close>

definition js_less :: "number \<Rightarrow> number \<Rightarrow> bool" where
  "js_less a b =
     (if a = NaN \<or> b = NaN then False
      else if a = PosInf \<or> b = NegInf then False
      else if a = NegInf \<or> b = PosInf then True
      else value_of a < value_of b)"

text \<open>
  \<^verbatim>\<open>Math.min(...nums)\<close> and \<^verbatim>\<open>Math.max(...nums)\<close>: a NaN argument gives NaN;
  otherwise the arguments are scanned from left to right, starting from
  \<^verbatim>\<open>+Infinity\<close> (\<^verbatim>\<open>-Infinity\<close> for max), and negative zero is below positive zero.
\<close>

definition min_step :: "number \<Rightarrow> number \<Rightarrow> number" where
  "min_step lowest n =
     (if n = NegZero \<and> lowest = Fin 0 then NegZero
      else if js_less n lowest then n else lowest)"

definition math_min :: "number list \<Rightarrow> number" where
  "math_min ns = (if NaN \<in> set ns then NaN else foldl min_step PosInf ns)"

definition max_step :: "number \<Rightarrow> number \<Rightarrow> number" where
  "max_step highest n =
     (if n = Fin 0 \<and> highest = NegZero then Fin 0
      else if js_less highest n then n else highest)"

definition math_max :: "number list \<Rightarrow> number" where
  "math_max ns = (if NaN \<in> set ns then NaN else foldl max_step NegInf ns)"

text \<open>An array length or count as a Number.\<close>

definition number_of_nat :: "nat \<Rightarrow> number" where
  "number_of_nat n = round64 (of_nat n)"

subsection \<open>\<^verbatim>\<open>parseFloat\<close>\<close>

text \<open>
  \<^verbatim>\<open>parseFloat\<close> on a string: skip leading white space, read an optional sign, then
  the longest prefix that is \<^verbatim>\<open>Infinity\<close> or a decimal literal (digits, an optional
  fraction, an optional exponent); what follows the prefix is ignored. No such prefix:
  NaN. The literal's mathematical value is rounded to the nearest Number. (ECMAScript
  allows an implementation to round a literal of more than 20 significant digits in two
  steps; the rounding here is the exact one.)
\<close>

text \<open>The exponent part: \<^verbatim>\<open>e\<close> or \<^verbatim>\<open>E\<close>, an optional sign, at least one digit.\<close>

definition scan_exponent :: "jsstring \<Rightarrow> int" where
  "scan_exponent s =
     (case s of
        [] \<Rightarrow> 0
      | c # r \<Rightarrow>
          if c = 0x65 \<or> c = 0x45 then
            (let neg = (case r of d # _ \<Rightarrow> d = 0x2D | [] \<Rightarrow> False);
                 r' = (case r of d # t \<Rightarrow> if d = 0x2B \<or> d = 0x2D then t else r | [] \<Rightarrow> r);
                 ds = takeWhile is_digit r'
             in if ds = [] then 0
                else if neg then - digits_value ds else digits_value ds)
          else 0)"

definition pow10 :: "int \<Rightarrow> rat" where
  "pow10 k = (if 0 \<le> k then 10 ^ nat k else 1 / 10 ^ nat (- k))"

definition scan_unsigned :: "jsstring \<Rightarrow> number" where
  "scan_unsigned s =
     (if take 8 s = lit ''Infinity'' then PosInf
      else
        let ip = takeWhile is_digit s;
            r1 = dropWhile is_digit s;
            has_dot = (case r1 of c # _ \<Rightarrow> c = 0x2E | [] \<Rightarrow> False);
            fp = (if has_dot then takeWhile is_digit (tl r1) else []);
            r2 = (if has_dot then dropWhile is_digit (tl r1) else r1)
        in if ip = [] \<and> fp = [] then NaN
           else round64
                  ((of_int (digits_value ip) + of_int (digits_value fp) / 10 ^ length fp)
                   * pow10 (scan_exponent r2)))"

definition parse_float_string :: "jsstring \<Rightarrow> number" where
  "parse_float_string s =
     (let t = dropWhile is_white_space s
      in case t of
           [] \<Rightarrow> NaN
         | c # u \<Rightarrow>
             if c = 0x2D then js_negate (scan_unsigned u)
             else if c = 0x2B then scan_unsigned u
             else scan_unsigned t)"

text \<open>
  A cell of a decoded row: the CSV decoder yields strings, the spreadsheet decoder yields
  strings, numbers and booleans, and a column that a row does not have reads as
  \<^verbatim>\<open>undefined\<close>.
\<close>

datatype cell = Undefined | Null | Bool bool | Num number | Str jsstring

text \<open>
  \<^verbatim>\<open>parseFloat(v)\<close> converts \<open>v\<close> to a string first. For a Number the string is the
  shortest decimal that reads back as the same Number (\<^verbatim>\<open>-0\<close> prints as \<^verbatim>\<open>0\<close>), so
  the composition is written out directly.
\<close>

definition parseFloat :: "cell \<Rightarrow> number" where
  "parseFloat v =
     (case v of
        Undefined \<Rightarrow> parse_float_string (lit ''undefined'')
      | Null \<Rightarrow> parse_float_string (lit ''null'')
      | Bool b \<Rightarrow> parse_float_string (if b then lit ''true'' else lit ''false'')
      | Num n \<Rightarrow> (if n = NegZero then Fin 0 else n)
      | Str s \<Rightarrow> parse_float_string s)"

subsection \<open>Objects\<close>

text \<open>
  An object with string keys is the list of its own enumerable properties in the order
  they were created; a key occurs once.
\<close>

type_synonym 'v object = "(jsstring \<times> 'v) list"

text \<open>
  An array index is the canonical decimal string of an integer from 0 to \<open>2^32 - 2\<close>.
  JavaScript enumerates the properties of an object with the array indices first, in
  ascending numeric order, and then the other string keys in creation order.
\<close>

definition is_array_index :: "jsstring \<Rightarrow> bool" where
  "is_array_index k \<longleftrightarrow>
     k \<noteq> [] \<and> list_all is_digit k \<and> (k = lit ''0'' \<or> hd k \<noteq> 0x30)
     \<and> digits_value k < 2 ^ 32 - 1"

text \<open>\<^verbatim>\<open>Object.entries(obj)\<close> and \<^verbatim>\<open>Object.keys(obj)\<close>\<close>

definition object_entries :: "'v object \<Rightarrow> (jsstring \<times> 'v) list" where
  "object_entries obj =
     sort_key (\<lambda>(k, v). digits_value k) (filter (\<lambda>(k, v). is_array_index k) obj)
     @ filter (\<lambda>(k, v). \<not> is_array_index k) obj"

definition object_keys :: "'v object \<Rightarrow> jsstring list" where
  "object_keys obj = map fst (object_entries obj)"

text \<open>
  \<^verbatim>\<open>obj[k] = v\<close> on an ordinary object: an existing property keeps its place, a new
  one is added at the end. Assigning to \<^verbatim>\<open>__proto__\<close> goes to the inherited setter
  and creates no own property.
\<close>

definition obj_set :: "'v object \<Rightarrow> jsstring \<Rightarrow> 'v \<Rightarrow> 'v object" where
  "obj_set obj k v =
     (if k = lit ''__proto__'' then obj
      else if k \<in> fst ` set obj then map (\<lambda>(k', v'). if k' = k then (k', v) else (k', v')) obj
      else obj @ [(k, v)])"

text \<open>
  A decoded row. \<^verbatim>\<open>r[col]\<close> on a row without that own property is
  \<^verbatim>\<open>undefined\<close>, or a member inherited from \<^verbatim>\<open>Object.prototype\<close> (a function or
  an object); \<^verbatim>\<open>parseFloat\<close> gives NaN on all of these, so the read is modelled as
  \<open>Undefined\<close>.
\<close>

type_synonym row = "cell object"

definition row_get :: "row \<Rightarrow> jsstring \<Rightarrow> cell" where
  "row_get r col = (case map_of r col of Some v \<Rightarrow> v | None \<Rightarrow> Undefined)"

subsection \<open>Exceptions\<close>

text \<open>
  What the program can raise, and what a step gives: an exception or a value.
\<close>

datatype error =
    Error jsstring  \<comment> \<open>\<^verbatim>\<open>new Error(message)\<close>\<close>
  | TypeError  \<comment> \<open>a property read on \<^verbatim>\<open>undefined\<close> or \<^verbatim>\<open>null\<close>\<close>
  | RangeError  \<comment> \<open>a call with more arguments than the engine accepts\<close>
  | ServiceError jsstring  \<comment> \<open>an exception raised inside a collaborator\<close>

text \<open>The rest of a computation runs on the value of a step; an exception skips it.\<close>

definition bind_result :: "error + 'a \<Rightarrow> ('a \<Rightarrow> error + 'b) \<Rightarrow> error + 'b" where
  "bind_result r f = (case r of Inl e \<Rightarrow> Inl e | Inr x \<Rightarrow> f x)"

text \<open>
  \<^verbatim>\<open>f(...nums)\<close>: the elements of the array become the arguments of one call. An engine
  puts the arguments of a call on its stack and accepts only a bounded number of them; a
  call with more raises a \<^verbatim>\<open>RangeError\<close>. The bound is not part of the language: it
  depends on the engine and on the stack space left, and is the parameter \<open>limit\<close>.
\<close>

definition spread_call :: "nat \<Rightarrow> (number list \<Rightarrow> number) \<Rightarrow> number list \<Rightarrow> error + number"
  where
  "spread_call limit f nums = (if limit < length nums then Inl RangeError else Inr (f nums))"

section \<open>The profiler: \<^verbatim>\<open>buildProfile\<close>\<close>

record column_stat =
  count :: nat
  sum_val :: number
  avg :: number
  min_val :: number
  max_val :: number

record profile =
  rowCount :: nat
  numericCols :: "column_stat object"

text \<open>
  \<^verbatim>\<open>rows.map((r) => parseFloat(r[col])).filter((n) => !isNaN(n))\<close>
\<close>

definition column_nums :: "row list \<Rightarrow> jsstring \<Rightarrow> number list" where
  "column_nums rows col =
     filter (\<lambda>n. \<not> isNaN n) (map (\<lambda>r. parseFloat (row_get r col)) rows)"

text \<open>
  The body of \<^verbatim>\<open>cols.forEach((col) => ...)\<close>, as a step on \<^verbatim>\<open>numericCols\<close>.
  \<^verbatim>\<open>Math.min(...nums)\<close> and \<^verbatim>\<open>Math.max(...nums)\<close> are calls with as many arguments
  as the column has numbers.
\<close>

definition profile_column ::
  "nat \<Rightarrow> row list \<Rightarrow> column_stat object \<Rightarrow> jsstring \<Rightarrow> error + column_stat object" where
  "profile_column limit rows numCols col =
     (let nums = column_nums rows col
      in if length nums > 0 then
           (let sum = foldl (\<lambda>a b. js_add a b) (Fin 0) nums;
                avg = js_divide sum (number_of_nat (length nums))
            in bind_result (spread_call limit math_min nums) (\<lambda>min.
               bind_result (spread_call limit math_max nums) (\<lambda>max.
               Inr (obj_set numCols col
                      \<lparr>count = length nums, sum_val = sum, avg = avg, min_val = min,
                       max_val = max\<rparr>))))
         else Inr numCols)"

text \<open>
  \<^verbatim>\<open>buildProfile(rows)\<close>, in an engine that accepts \<open>limit\<close> arguments in a call. An
  exception raised for one column ends the \<^verbatim>\<open>forEach\<close> and is the outcome of the call.
\<close>

definition buildProfile :: "nat \<Rightarrow> row list \<Rightarrow> error + profile" where
  "buildProfile limit rows =
     (let numCols = [];
          rowCount = length rows
      in if rowCount = 0 then Inr \<lparr>rowCount = 0, numericCols = numCols\<rparr>
         else
           (let sample = hd rows;
                cols = object_keys sample
            in bind_result
                 (foldl
                    (\<lambda>acc col.
                       bind_result acc (\<lambda>numCols. profile_column limit rows numCols col))
                    (Inr numCols) cols)
                 (\<lambda>numCols. Inr \<lparr>rowCount = rowCount, numericCols = numCols\<rparr>)))"

section \<open>The statistics table\<close>

text \<open>
  A row of the table handed to the CSV writer. A field holds a Number or a string
  (\<open>Num\<close> or \<open>Str\<close>).
\<close>

record csv_row =
  Column :: cell
  Count :: cell
  Sum_val :: cell
  Avg :: cell
  Min_val :: cell
  Max_val :: cell

text \<open>
  \<^verbatim>\<open>Object.entries(profile.numericCols).map(([col, stats]) => ({...}))\<close> followed by
  \<^verbatim>\<open>csvRows.unshift({Column: "__ROWCOUNT__", Count: profile.rowCount, ...})\<close>
\<close>

definition stat_row :: "jsstring \<times> column_stat \<Rightarrow> csv_row" where
  "stat_row entry =
     (case entry of (col, stats) \<Rightarrow>
        \<lparr>Column = Str col,
         Count = Num (number_of_nat (count stats)),
         Sum_val = Num (sum_val stats),
         Avg = Num (avg stats),
         Min_val = Num (min_val stats),
         Max_val = Num (max_val stats)\<rparr>)"

definition rowcount_row :: "profile \<Rightarrow> csv_row" where
  "rowcount_row profile =
     \<lparr>Column = Str (lit ''__ROWCOUNT__''),
      Count = Num (number_of_nat (rowCount profile)),
      Sum_val = Str [],
      Avg = Str [],
      Min_val = Str [],
      Max_val = Str []\<rparr>"

definition csvRows :: "profile \<Rightarrow> csv_row list" where
  "csvRows profile =
     rowcount_row profile # map stat_row (object_entries (numericCols profile))"

text \<open>
  The CSV writer prints a Number field with JavaScript's number-to-string conversion. On a
  non-negative integer below \<open>10^21\<close>, which is what a \<open>Count\<close> field holds, that is
  its decimal digits.
\<close>

function digits_of :: "nat \<Rightarrow> jsstring" where
  "digits_of n =
     (if n < 10 then [of_nat (48 + n)]
      else digits_of (n div 10) @ [of_nat (48 + n mod 10)])"
  by pat_completeness auto
termination
  by (relation "measure id") auto

declare digits_of.simps [simp del]

definition integer_to_string :: "nat \<Rightarrow> jsstring" where
  "integer_to_string n = digits_of n"

section \<open>The handler\<close>

subsection \<open>Collaborators and the record of their calls\<close>

type_synonym bytes = "8 word list"

text \<open>
  The two prompts are template strings around values of the profile: the row count and
  \<^verbatim>\<open>JSON.stringify(profile.numericCols, null, 2)\<close> in the first,
  \<^verbatim>\<open>JSON.stringify(profile, null, 2)\<close> in the second. A prompt is kept as the values
  its text is built from.
\<close>

datatype prompt =
    SummaryPrompt nat "column_stat object"
  | JsonSummaryPrompt profile

record chat_request =
  model :: jsstring
  content :: prompt
  json_object :: bool

datatype call =
    GetObject jsstring jsstring  \<comment> \<open>bucket, key\<close>
  | ParseCsv bytes
  | ParseXlsx bytes
  | ChatCreate chat_request
  | PutObject jsstring jsstring jsstring  \<comment> \<open>bucket, key, body\<close>

datatype outcome = Returned | Threw error

text \<open>
  The collaborators, over a world \<open>'w\<close> that their calls read and change: the object
  store (\<^verbatim>\<open>s3Client.send\<close> of a \<^verbatim>\<open>GetObjectCommand\<close> with
  \<^verbatim>\<open>transformToByteArray\<close>, and of a \<^verbatim>\<open>PutObjectCommand\<close>) and the text
  generation service (\<^verbatim>\<open>openai.chat.completions.create\<close>, whose answer is
  \<^verbatim>\<open>choices[0].message.content\<close>, \<open>None\<close> when there is none). The two decoders
  (\<^verbatim>\<open>parseCsvFromS3\<close> and \<^verbatim>\<open>parseXlsxFromS3\<close>, both calls into a library) and the
  CSV writer (\<^verbatim>\<open>new Parser({fields: [...]}).parse\<close>) are functions of their argument.
  With them comes the number of arguments the engine accepts in a call, \<open>max_arguments\<close>.
\<close>

record 'w collaborators =
  max_arguments :: nat
  get_object :: "jsstring \<Rightarrow> jsstring \<Rightarrow> 'w \<Rightarrow> (error + bytes) \<times> 'w"
  put_object :: "jsstring \<Rightarrow> jsstring \<Rightarrow> jsstring \<Rightarrow> 'w \<Rightarrow> (error + unit) \<times> 'w"
  chat_create :: "chat_request \<Rightarrow> 'w \<Rightarrow> (error + jsstring option) \<times> 'w"
  parseCsvFromS3 :: "bytes \<Rightarrow> error + row list"
  parseXlsxFromS3 :: "bytes \<Rightarrow> error + row list"
  csv_parser_parse :: "csv_row list \<Rightarrow> jsstring"

text \<open>
  A step of one invocation starts in a world and gives its result (an exception or a
  value), the calls it made with their outcomes, oldest first, and the world it leaves.
\<close>

type_synonym trace = "(call \<times> outcome) list"

type_synonym ('w, 'a) action = "'w \<Rightarrow> (error + 'a) \<times> trace \<times> 'w"

definition return :: "'a \<Rightarrow> ('w, 'a) action" where
  "return x w = (Inr x, [], w)"

definition throw :: "error \<Rightarrow> ('w, 'a) action" where
  "throw e w = (Inl e, [], w)"

text \<open>\<^verbatim>\<open>await m\<close>, then the rest; an exception skips the rest.\<close>

definition and_then :: "('w, 'a) action \<Rightarrow> ('a \<Rightarrow> ('w, 'b) action) \<Rightarrow> ('w, 'b) action" where
  "and_then m f w =
     (case m w of
        (Inl e, evs, w') \<Rightarrow> (Inl e, evs, w')
      | (Inr x, evs, w') \<Rightarrow>
          (case f x w' of (r, evs', w'') \<Rightarrow> (r, evs @ evs', w'')))"

text \<open>\<^verbatim>\<open>try { m } catch (err) { h(err) }\<close>\<close>

definition try_catch :: "('w, 'a) action \<Rightarrow> (error \<Rightarrow> ('w, 'a) action) \<Rightarrow> ('w, 'a) action" where
  "try_catch m h w =
     (case m w of
        (Inl e, evs, w') \<Rightarrow>
          (case h e w' of (r, evs', w'') \<Rightarrow> (r, evs @ evs', w''))
      | (Inr x, evs, w') \<Rightarrow> (Inr x, evs, w'))"

definition outcome_of :: "error + 'a \<Rightarrow> outcome" where
  "outcome_of r = (case r of Inl e \<Rightarrow> Threw e | Inr x \<Rightarrow> Returned)"

text \<open>A call of a collaborator that changes the world, and of one that does not.\<close>

definition invoke :: "call \<Rightarrow> ('w \<Rightarrow> (error + 'a) \<times> 'w) \<Rightarrow> ('w, 'a) action" where
  "invoke c f w = (case f w of (r, w') \<Rightarrow> (r, [(c, outcome_of r)], w'))"

definition invoke_pure :: "call \<Rightarrow> error + 'a \<Rightarrow> ('w, 'a) action" where
  "invoke_pure c r w = (r, [(c, outcome_of r)], w)"

text \<open>A computation of the handler's own, which calls no collaborator.\<close>

definition compute :: "error + 'a \<Rightarrow> ('w, 'a) action" where
  "compute r w = (r, [], w)"

subsection \<open>\<^verbatim>\<open>generateAiSummary\<close> and \<^verbatim>\<open>generateAiJsonSummary\<close>\<close>

text \<open>\<^verbatim>\<open>res.choices[0].message.content.trim()\<close>\<close>

definition response_text :: "jsstring option \<Rightarrow> ('w, jsstring) action" where
  "response_text res =
     (case res of None \<Rightarrow> throw TypeError | Some text \<Rightarrow> return (trim text))"

definition generateAiSummary ::
  "'w collaborators \<Rightarrow> row list \<Rightarrow> profile \<Rightarrow> ('w, jsstring) action" where
  "generateAiSummary env rows profile =
     (let request =
        \<lparr>model = lit ''gpt-4o-mini'',
         content = SummaryPrompt (rowCount profile) (numericCols profile),
         json_object = False\<rparr>
      in and_then (invoke (ChatCreate request) (chat_create env request)) response_text)"

definition generateAiJsonSummary :: "'w collaborators \<Rightarrow> profile \<Rightarrow> ('w, jsstring) action" where
  "generateAiJsonSummary env profile =
     (let request =
        \<lparr>model = lit ''gpt-4o-mini'',
         content = JsonSummaryPrompt profile,
         json_object = True\<rparr>
      in and_then (invoke (ChatCreate request) (chat_create env request)) response_text)"

subsection \<open>\<^verbatim>\<open>handler\<close>\<close>

record output_file =
  ext :: jsstring
  body :: jsstring

text \<open>The returned object \<^verbatim>\<open>{statusCode, body}\<close>; its \<^verbatim>\<open>body\<close> is the field \<open>message\<close>.\<close>

record response =
  statusCode :: nat
  message :: jsstring

text \<open>\<^verbatim>\<open>key.split("/").pop().split(".")[0]\<close>\<close>

definition baseName :: "jsstring \<Rightarrow> jsstring" where
  "baseName key = hd (split (last (split key 0x2F)) 0x2E)"

text \<open>\<^verbatim>\<open>`summaries/${baseName}.${out.ext}`\<close>\<close>

definition outKey :: "jsstring \<Rightarrow> output_file \<Rightarrow> jsstring" where
  "outKey base out = lit ''summaries/'' @ base @ lit ''.'' @ ext out"

text \<open>\<^verbatim>\<open>for (const out of outputs) { await s3Client.send(new PutObjectCommand(...)) }\<close>\<close>

fun save_outputs ::
  "'w collaborators \<Rightarrow> jsstring \<Rightarrow> jsstring \<Rightarrow> output_file list \<Rightarrow> ('w, unit) action" where
  "save_outputs env output_bucket base [] = return ()"
| "save_outputs env output_bucket base (out # outs) =
     and_then
       (invoke (PutObject output_bucket (outKey base out) (body out))
          (put_object env output_bucket (outKey base out) (body out)))
       (\<lambda>_. save_outputs env output_bucket base outs)"

text \<open>
  The handler, from the point where \<^verbatim>\<open>key\<close> (decoded) and \<^verbatim>\<open>bucket\<close> have been
  read from the first record of the event. \<open>output_bucket\<close> is the value of
  \<^verbatim>\<open>OUTPUT_BUCKET\<close>. Logging is left out.
\<close>

definition handler ::
  "'w collaborators \<Rightarrow> jsstring \<Rightarrow> jsstring \<Rightarrow> jsstring \<Rightarrow> ('w, response) action" where
  "handler env output_bucket bucket key =
     try_catch
       (and_then (invoke (GetObject bucket key) (get_object env bucket key)) (\<lambda>body.
        and_then
          (if endsWith key (lit ''.csv'') then
             invoke_pure (ParseCsv body) (parseCsvFromS3 env body)
           else if endsWith key (lit ''.xlsx'') then
             invoke_pure (ParseXlsx body) (parseXlsxFromS3 env body)
           else throw (Error (lit ''Unsupported file type''))) (\<lambda>rows.
        and_then (compute (buildProfile (max_arguments env) rows)) (\<lambda>profile.
        and_then (generateAiSummary env rows profile) (\<lambda>textSummary.
        and_then (generateAiJsonSummary env profile) (\<lambda>jsonSummary.
        let csvSummary = csv_parser_parse env (csvRows profile);
            base = baseName key;
            outputs =
              [\<lparr>ext = lit ''txt'', body = textSummary\<rparr>,
               \<lparr>ext = lit ''json'', body = jsonSummary\<rparr>,
               \<lparr>ext = lit ''csv'', body = csvSummary\<rparr>]
        in and_then (save_outputs env output_bucket base outputs) (\<lambda>_.
             return \<lparr>statusCode = 200,
                     message = lit ''Summaries generated successfully''\<rparr>)))))))
       (\<lambda>err. throw err)"

section \<open>Auxiliary definitions\<close>

text \<open>The statistics of a column, as \<open>profile_column\<close> computes them.\<close>

definition stat_of :: "row list \<Rightarrow> jsstring \<Rightarrow> column_stat" where
  "stat_of rows col =
     \<lparr>count = length (column_nums rows col),
      sum_val = foldl js_add (Fin 0) (column_nums rows col),
      avg = js_divide (foldl js_add (Fin 0) (column_nums rows col))
              (number_of_nat (length (column_nums rows col))),
      min_val = math_min (column_nums rows col),
      max_val = math_max (column_nums rows col)\<rparr>"

text \<open>What \<open>profile_column\<close> leaves in \<^verbatim>\<open>numericCols\<close> when it raises nothing.\<close>

definition store_column :: "row list \<Rightarrow> column_stat object \<Rightarrow> jsstring \<Rightarrow> column_stat object"
  where
  "store_column rows numCols col =
     (if column_nums rows col = [] then numCols else obj_set numCols col (stat_of rows col))"

text \<open>No column of the first row has more numbers than a call accepts arguments.\<close>

definition within_limit :: "nat \<Rightarrow> row list \<Rightarrow> bool" where
  "within_limit limit rows \<longleftrightarrow>
     list_all (\<lambda>col. length (column_nums rows col) \<le> limit) (object_keys (hd rows))"

subsection \<open>Decimal numbers and the Numbers nearest to them\<close>

text \<open>
  A decimal number as it is written: an optional sign, the digits before the point, the
  point and the digits after it (if there is a point), and an exponent part (if there is
  one): the letter \<^verbatim>\<open>e\<close> or \<^verbatim>\<open>E\<close>, an optional sign and digits. There is a digit before
  or after the point, and the exponent has a digit.
\<close>

datatype sign_char = NoSign | PlusSign | MinusSign

record decimal =
  sign :: sign_char
  integer_digits :: jsstring
  fraction_digits :: "jsstring option"
  exponent :: "(jschar \<times> sign_char \<times> jsstring) option"

definition well_formed :: "decimal \<Rightarrow> bool" where
  "well_formed d \<longleftrightarrow>
     list_all is_digit (integer_digits d)
     \<and> (case fraction_digits d of
          None \<Rightarrow> integer_digits d \<noteq> []
        | Some f \<Rightarrow> list_all is_digit f \<and> (integer_digits d \<noteq> [] \<or> f \<noteq> []))
     \<and> (case exponent d of
          None \<Rightarrow> True
        | Some (e, s, ds) \<Rightarrow> (e = 0x65 \<or> e = 0x45) \<and> ds \<noteq> [] \<and> list_all is_digit ds)"

definition sign_text :: "sign_char \<Rightarrow> jsstring" where
  "sign_text s = (case s of NoSign \<Rightarrow> [] | PlusSign \<Rightarrow> [0x2B] | MinusSign \<Rightarrow> [0x2D])"

definition decimal_text :: "decimal \<Rightarrow> jsstring" where
  "decimal_text d =
     sign_text (sign d) @ integer_digits d
     @ (case fraction_digits d of None \<Rightarrow> [] | Some f \<Rightarrow> 0x2E # f)
     @ (case exponent d of None \<Rightarrow> [] | Some (e, s, ds) \<Rightarrow> e # sign_text s @ ds)"

text \<open>
  The natural number written by a string of digits, by the place value of each digit, and
  the rational number a decimal number denotes.
\<close>

definition digits_number :: "jsstring \<Rightarrow> nat" where
  "digits_number ds =
     (\<Sum>i\<leftarrow>[0..<length ds]. (unat (ds ! i) - 48) * 10 ^ (length ds - Suc i))"

definition decimal_value :: "decimal \<Rightarrow> rat" where
  "decimal_value d =
     (if sign d = MinusSign then - 1 else 1)
     * (of_nat (digits_number (integer_digits d))
        + (case fraction_digits d of
             None \<Rightarrow> 0
           | Some f \<Rightarrow> of_nat (digits_number f) / 10 ^ length f))
     * 10 powi
         (case exponent d of
            None \<Rightarrow> 0
          | Some (e, s, ds) \<Rightarrow>
              if s = MinusSign then - int (digits_number ds) else int (digits_number ds))"

text \<open>
  The characters \<open>t\<close> that follow a decimal number in a text do not continue it: they do
  not start with a digit; after a number without exponent they do not start an exponent
  part; after a number without point and without exponent they do not start with a point.
\<close>

definition exponent_start :: "jsstring \<Rightarrow> bool" where
  "exponent_start t \<longleftrightarrow>
     (\<exists>e c r. t = e # c # r \<and> (e = 0x65 \<or> e = 0x45)
        \<and> (is_digit c \<or> ((c = 0x2B \<or> c = 0x2D) \<and> r \<noteq> [] \<and> is_digit (hd r))))"

definition ends_number :: "decimal \<Rightarrow> jsstring \<Rightarrow> bool" where
  "ends_number d t \<longleftrightarrow>
     (t = [] \<or> \<not> is_digit (hd t))
     \<and> (exponent d = None \<longrightarrow> \<not> exponent_start t)
     \<and> (fraction_digits d = None \<and> exponent d = None \<longrightarrow> t = [] \<or> hd t \<noteq> 0x2E)"

text \<open>
  The finite values of the binary64 format are the numbers \<open>m * 2^e\<close> with an integer
  \<open>m\<close> of magnitude below \<open>2^53\<close> and \<open>-1074 \<le> e \<le> 971\<close>. A real number \<open>v\<close> of
  magnitude below \<open>2^1024 - 2^970\<close> (the midpoint between the largest finite value and
  \<open>2^1024\<close>) converts to a finite value nearest to it, and when two are nearest, to the
  one whose significand is even (the significand is \<open>m\<close> when \<open>e\<close> is the least
  possible: \<open>e = -1074\<close> or \<open>2^52 \<le> |m|\<close>); a larger number converts to an infinity.
  A result of 0 is negative zero when the number was written with a minus sign.
\<close>

definition binary64 :: "rat \<Rightarrow> bool" where
  "binary64 x \<longleftrightarrow>
     (\<exists>m e. x = of_int m * 2 powi e \<and> \<bar>m\<bar> < 2 ^ 53 \<and> - 1074 \<le> e \<and> e \<le> 971)"

definition even_significand :: "rat \<Rightarrow> bool" where
  "even_significand x \<longleftrightarrow>
     (\<exists>m e. x = of_int (2 * m) * 2 powi e \<and> \<bar>2 * m\<bar> < 2 ^ 53 \<and> - 1074 \<le> e \<and> e \<le> 971
        \<and> (e = - 1074 \<or> 2 ^ 52 \<le> \<bar>2 * m\<bar>))"

definition nearest_binary64 :: "rat \<Rightarrow> rat \<Rightarrow> bool" where
  "nearest_binary64 v x \<longleftrightarrow>
     binary64 x \<and> (\<forall>y. binary64 y \<longrightarrow> \<bar>x - v\<bar> \<le> \<bar>y - v\<bar>)
     \<and> ((\<exists>y. binary64 y \<and> y \<noteq> x \<and> \<bar>y - v\<bar> = \<bar>x - v\<bar>) \<longrightarrow> even_significand x)"

definition overflow_threshold :: rat where
  "overflow_threshold = 2 ^ 1024 - 2 ^ 970"

definition nearest_number :: "rat \<Rightarrow> bool \<Rightarrow> number \<Rightarrow> bool" where
  "nearest_number v negative n \<longleftrightarrow>
     (if overflow_threshold \<le> \<bar>v\<bar> then n = (if negative then NegInf else PosInf)
      else \<exists>x. nearest_binary64 v x \<and> n = (if x = 0 \<and> negative then NegZero else Fin x))"

subsection \<open>Printing a Number\<close>

text \<open>
  JavaScript's number-to-string conversion, for the values whose text does not depend on
  finding a shortest decimal: NaN, the infinities, the zeros, and the integers of magnitude
  below \<open>10^21\<close>. \<open>None\<close> stands for the remaining values.
\<close>

definition number_to_string :: "number \<Rightarrow> jsstring option" where
  "number_to_string n =
     (case n of
        NaN \<Rightarrow> Some (lit ''NaN'')
      | PosInf \<Rightarrow> Some (lit ''Infinity'')
      | NegInf \<Rightarrow> Some (lit ''-Infinity'')
      | NegZero \<Rightarrow> Some (lit ''0'')
      | Fin r \<Rightarrow>
          if r = of_int \<lfloor>r\<rfloor> \<and> \<bar>r\<bar> < 10 ^ 21 then
            Some ((if r < 0 then lit ''-'' else []) @ integer_to_string (nat \<bar>\<lfloor>r\<rfloor>\<bar>))
          else None)"

subsection \<open>The order in which properties are enumerated\<close>

text \<open>
  \<open>enumerated_before a b\<close>: nothing forces the key \<open>b\<close> to be enumerated before the key
  \<open>a\<close>. Array indices go by their numeric value and precede all other keys.
\<close>

definition enumerated_before :: "jsstring \<Rightarrow> jsstring \<Rightarrow> bool" where
  "enumerated_before a b \<longleftrightarrow>
     (if is_array_index a then is_array_index b \<longrightarrow> digits_value a \<le> digits_value b
      else \<not> is_array_index b)"

subsection \<open>Reading a trace\<close>

text \<open>The keys written by the \<^verbatim>\<open>PutObjectCommand\<close> calls of a trace, oldest first.\<close>

fun put_keys :: "trace \<Rightarrow> jsstring list" where
  "put_keys [] = []"
| "put_keys ((PutObject b k payload, oc) # evs) = k # put_keys evs"
| "put_keys (ev # evs) = put_keys evs"

text \<open>The body written under a key, if the trace has a \<^verbatim>\<open>PutObjectCommand\<close> for it.\<close>

fun put_body :: "jsstring \<Rightarrow> trace \<Rightarrow> jsstring option" where
  "put_body key [] = None"
| "put_body key ((PutObject b k payload, oc) # evs) =
     (if k = key then Some payload else put_body key evs)"
| "put_body key (ev # evs) = put_body key evs"

subsection \<open>A scripted world\<close>

text \<open>
  Collaborators for running the handler on examples, in an engine that accepts \<open>limit\<close>
  arguments in a call. The world counts the calls made to the store and the text generation
  service; the call made at count \<open>fail_at\<close> raises an exception. Every other fetch returns no bytes, every other generation returns the count as
  text between spaces. Both decoders return \<open>rows\<close>; the CSV writer here prints the
  \<open>Column\<close> field of every row, each followed by a line feed.
\<close>

definition scripted :: "nat \<Rightarrow> nat \<Rightarrow> row list \<Rightarrow> nat collaborators" where
  "scripted limit fail_at rows =
     \<lparr>max_arguments = limit,
      get_object = (\<lambda>b k w.
        (if w = fail_at then Inl (ServiceError (lit ''get'')) else Inr [], Suc w)),
      put_object = (\<lambda>b k payload w.
        (if w = fail_at then Inl (ServiceError (lit ''put'')) else Inr (), Suc w)),
      chat_create = (\<lambda>request w.
        (if w = fail_at then Inl (ServiceError (lit ''chat''))
         else Inr (Some (lit '' '' @ integer_to_string w @ lit '' '')), Suc w)),
      parseCsvFromS3 = (\<lambda>b. Inr rows),
      parseXlsxFromS3 = (\<lambda>b. Inr rows),
      csv_parser_parse = (\<lambda>table.
        concat (map (\<lambda>r. (case Column r of Str s \<Rightarrow> s | _ \<Rightarrow> []) @ [0xA]) table))\<rparr>"

section \<open>Properties of Number arithmetic\<close>

subsection \<open>Rounding is exact on the values binary64 can represent\<close>

lemma pow2_powi: "pow2 k = 2 powi k"
  by (simp add: pow2_def power_int_def inverse_eq_divide power_one_over)

lemma pow2_pos [simp]: "0 < pow2 k"
  by (simp add: pow2_powi)

lemma pow2_nonzero [simp]: "pow2 k \<noteq> 0"
  by (simp add: pow2_powi)

lemma pow2_add: "pow2 (a + b) = pow2 a * pow2 b"
  by (simp add: pow2_powi power_int_add)

lemma pow2_nat: "pow2 (int n) = 2 ^ n"
  by (simp add: pow2_def)

lemma pow2_strict_mono: "a < b \<Longrightarrow> pow2 a < pow2 b"
  by (simp add: pow2_powi power_int_strict_increasing)

lemma pow2_mono: "a \<le> b \<Longrightarrow> pow2 a \<le> pow2 b"
  by (simp add: pow2_powi power_int_increasing)

lemma pow2_less_iff: "pow2 a < pow2 b \<longleftrightarrow> a < b"
  using pow2_strict_mono [of a b] pow2_mono [of b a] by (auto simp: not_less [symmetric])

lemma ilog2_bounds:
  assumes "0 < r"
  shows "pow2 (ilog2 r) \<le> r" and "r < pow2 (ilog2 r + 1)"
proof -
  obtain p q where pq: "quotient_of r = (p, q)"
    by (cases "quotient_of r")
  have q: "0 < q"
    using quotient_of_denom_pos [OF pq] .
  have r: "r = of_int p / of_int q"
    using quotient_of_div [OF pq] .
  have p: "0 < p"
    using assms q by (simp add: r zero_less_divide_iff)
  define bp where "bp = bitlen p"
  define bq where "bq = bitlen q"
  define d where "d = bp - bq"
  have bp1: "1 \<le> bp" and bq1: "1 \<le> bq"
    using p q by (simp_all add: bp_def bq_def bitlen_alt_def)
  have "2 ^ nat (bp - 1) \<le> p" and "p < 2 ^ nat bp"
    using bitlen_bounds [OF p] by (simp_all add: bp_def)
  then have "(of_int (2 ^ nat (bp - 1)) :: rat) \<le> of_int p" and "(of_int p :: rat) < of_int (2 ^ nat bp)"
    by (simp_all only: of_int_le_iff of_int_less_iff)
  then have P: "pow2 (bp - 1) \<le> of_int p" "of_int p < pow2 bp"
    using bp1 by (simp_all add: pow2_def)
  have "2 ^ nat (bq - 1) \<le> q" and "q < 2 ^ nat bq"
    using bitlen_bounds [OF q] by (simp_all add: bq_def)
  then have "(of_int (2 ^ nat (bq - 1)) :: rat) \<le> of_int q" and "(of_int q :: rat) < of_int (2 ^ nat bq)"
    by (simp_all only: of_int_le_iff of_int_less_iff)
  then have Q: "pow2 (bq - 1) \<le> of_int q" "of_int q < pow2 bq"
    using bq1 by (simp_all add: pow2_def)
  have qpos: "(0::rat) < of_int q"
    using q by simp
  have "of_int p < pow2 (d + 1) * pow2 (bq - 1)"
    using P(2) by (simp add: d_def pow2_add [symmetric])
  also have "\<dots> \<le> pow2 (d + 1) * of_int q"
    using Q(1) by (simp add: mult_left_mono less_imp_le)
  finally have up: "r < pow2 (d + 1)"
    using qpos by (simp add: r pos_divide_less_eq)
  have "pow2 (d - 1) * of_int q < pow2 (d - 1) * pow2 bq"
    using Q(2) by (simp add: mult_strict_left_mono)
  also have "\<dots> = pow2 (bp - 1)"
    by (simp add: d_def pow2_add [symmetric])
  also have "\<dots> \<le> of_int p"
    using P(1) .
  finally have lo: "pow2 (d - 1) < r"
    using qpos by (simp add: r pos_less_divide_eq)
  have il: "ilog2 r = (if pow2 d \<le> r then d else d - 1)"
    by (simp add: ilog2_def pq Let_def d_def bp_def bq_def)
  show "pow2 (ilog2 r) \<le> r"
    using lo by (simp add: il less_imp_le)
  show "r < pow2 (ilog2 r + 1)"
    using up by (simp add: il not_le)
qed

lemma ilog2_unique:
  assumes "0 < r" and "pow2 e \<le> r" and "r < pow2 (e + 1)"
  shows "ilog2 r = e"
proof -
  have "pow2 e < pow2 (ilog2 r + 1)"
    using assms(2) ilog2_bounds(2) [OF assms(1)] by (rule le_less_trans)
  moreover have "pow2 (ilog2 r) < pow2 (e + 1)"
    using ilog2_bounds(1) [OF assms(1)] assms(3) by (rule le_less_trans)
  ultimately show ?thesis
    by (simp add: pow2_less_iff)
qed

lemma round_half_even_of_int [simp]: "round_half_even (of_int n) = n"
  by (simp add: round_half_even_def Let_def)


lemma round64_exact:
  assumes k: "k \<noteq> 0" "\<bar>k\<bar> < 2 ^ 53" and e: "- 1074 \<le> e"
    and bound: "\<bar>of_int k * pow2 e\<bar> < pow2 1024"
  shows "round64 (of_int k * pow2 e) = Fin (of_int k * pow2 e)"
proof -
  define r where "r = (of_int k :: rat) * pow2 e"
  define a where "a = \<bar>r\<bar>"
  have a_eq: "a = of_int \<bar>k\<bar> * pow2 e"
    by (simp add: a_def r_def abs_mult abs_of_pos)
  have a_pos: "0 < a"
    using k(1) by (simp add: a_eq)
  have r0: "r \<noteq> 0"
    using a_pos by (simp add: a_def)
  define E where "E = ilog2 a"
  have E1: "pow2 E \<le> a" and E2: "a < pow2 (E + 1)"
    using ilog2_bounds [OF a_pos] by (simp_all add: E_def)
  have "(of_int \<bar>k\<bar> :: rat) < of_int (2 ^ 53)"
    using k(2) by (simp only: of_int_less_iff)
  then have "(of_int \<bar>k\<bar> :: rat) < pow2 53"
    by (simp add: pow2_def)
  then have "a < pow2 53 * pow2 e"
    by (simp add: a_eq mult_strict_right_mono)
  then have "a < pow2 (e + 53)"
    by (simp add: pow2_add mult.commute)
  with E1 have "pow2 E < pow2 (e + 53)"
    by (rule le_less_trans)
  then have Ee: "E < e + 53"
    by (simp add: pow2_less_iff)
  from E1 bound have "pow2 E < pow2 1024"
    by (simp add: a_def r_def)
  then have E1024: "E < 1024"
    by (simp add: pow2_less_iff)
  define j where "j = e - (max E (- 1022) - 52)"
  have j0: "0 \<le> j"
    using Ee e by (simp add: j_def max_def)
  define q where "q = pow2 (max E (- 1022) - 52)"
  have eq: "pow2 e = pow2 j * q"
    by (simp add: q_def j_def pow2_add [symmetric])
  have pj: "pow2 j = 2 ^ nat j"
    using j0 by (simp add: pow2_def)
  have aq: "a / q = of_int (\<bar>k\<bar> * 2 ^ nat j)"
    by (simp add: a_eq eq q_def pj)
  have "of_int (round_half_even (a / q)) * q = of_int \<bar>k\<bar> * (pow2 j * q)"
    unfolding aq round_half_even_of_int by (simp add: pj)
  then have m: "of_int (round_half_even (a / q)) * q = a"
    by (simp only: a_eq eq)
  have sgn: "(if r < 0 then - a else a) = r"
    by (simp add: a_def)
  have "round64 r = Fin r"
    unfolding round64_def Let_def a_def [symmetric] E_def [symmetric] q_def [symmetric] m
    using r0 a_pos E1024 sgn by simp
  then show ?thesis
    by (simp add: r_def)
qed

lemma round64_of_int:
  assumes "\<bar>k\<bar> \<le> 2 ^ 53"
  shows "round64 (of_int k) = Fin (of_int k)"
proof (cases "k = 0")
  case True
  then show ?thesis by (simp add: round64_def)
next
  case False
  show ?thesis
  proof (cases "\<bar>k\<bar> = 2 ^ 53")
    case True
    then have "k = 2 ^ 53 \<or> k = - (2 ^ 53)"
      by linarith
    then have k: "(of_int k :: rat) = of_int (k div 2 ^ 53) * pow2 53"
      by (auto simp: pow2_def)
    have "round64 (of_int (k div 2 ^ 53) * pow2 53) = Fin (of_int (k div 2 ^ 53) * pow2 53)"
      using \<open>k = 2 ^ 53 \<or> k = - (2 ^ 53)\<close>
      by (intro round64_exact) (auto simp: pow2_def)
    then show ?thesis
      by (simp only: k [symmetric])
  next
    case False
    with assms have lt: "\<bar>k\<bar> < 2 ^ 53"
      by simp
    then have "(of_int \<bar>k\<bar> :: rat) < of_int (2 ^ 53)"
      by (simp only: of_int_less_iff)
    then have "\<bar>of_int k * pow2 0\<bar> < pow2 1024"
      by (simp add: pow2_def)
    from round64_exact [OF \<open>k \<noteq> 0\<close> lt _ this] show ?thesis
      by (simp add: pow2_def)
  qed
qed

lemma number_of_nat_exact: "n \<le> 2 ^ 53 \<Longrightarrow> number_of_nat n = Fin (of_nat n)"
  using round64_of_int [of "int n"] by (simp add: number_of_nat_def)

subsection \<open>Rounding to an integer\<close>

lemma round_half_even_cases:
  "round_half_even x = \<lfloor>x\<rfloor> \<or> round_half_even x = \<lfloor>x\<rfloor> + 1"
  by (simp add: round_half_even_def Let_def)

lemma round_half_even_nearest:
  "\<bar>of_int (round_half_even x) - x\<bar> \<le> \<bar>of_int j - x\<bar>"
proof -
  define f where "f = \<lfloor>x\<rfloor>"
  define d where "d = x - of_int f"
  have d0: "0 \<le> d" and d1: "d < 1"
    unfolding d_def f_def by linarith+
  have x: "x = of_int f + d"
    by (simp add: d_def)
  have k: "\<bar>of_int (round_half_even x) - x\<bar> \<le> d"
    "\<bar>of_int (round_half_even x) - x\<bar> \<le> 1 - d"
    using d0 d1
    by (auto simp: round_half_even_def Let_def f_def [symmetric] d_def [symmetric])
       (simp_all add: x)
  consider "j \<le> f" | "f + 1 \<le> j"
    by linarith
  then show ?thesis
  proof cases
    case 1
    then have "(of_int j :: rat) \<le> of_int f"
      by (simp only: of_int_le_iff)
    then have "d \<le> \<bar>of_int j - x\<bar>"
      using d0 by (simp add: x)
    with k(1) show ?thesis
      by (rule order_trans)
  next
    case 2
    then have "(of_int (f + 1) :: rat) \<le> of_int j"
      by (simp only: of_int_le_iff)
    then have "1 - d \<le> \<bar>of_int j - x\<bar>"
      using d1 by (simp add: x)
    with k(2) show ?thesis
      by (rule order_trans)
  qed
qed

lemma round_half_even_half: "\<bar>of_int (round_half_even x) - x\<bar> \<le> 1 / 2"
proof -
  define f where "f = \<lfloor>x\<rfloor>"
  define d where "d = x - of_int f"
  have d0: "0 \<le> d" and d1: "d < 1"
    unfolding d_def f_def by linarith+
  have x: "x = of_int f + d"
    by (simp add: d_def)
  have "\<bar>of_int (round_half_even x) - x\<bar> \<le> d"
    "\<bar>of_int (round_half_even x) - x\<bar> \<le> 1 - d"
    using d0 d1
    by (auto simp: round_half_even_def Let_def f_def [symmetric] d_def [symmetric])
       (simp_all add: x)
  then show ?thesis
    by linarith
qed

lemma round_half_even_unfold:
  "round_half_even x =
     (if x - of_int \<lfloor>x\<rfloor> < 1 / 2 then \<lfloor>x\<rfloor>
      else if 1 / 2 < x - of_int \<lfloor>x\<rfloor> then \<lfloor>x\<rfloor> + 1
      else if even \<lfloor>x\<rfloor> then \<lfloor>x\<rfloor> else \<lfloor>x\<rfloor> + 1)"
  by (simp add: round_half_even_def Let_def)

lemma round_half_even_tie:
  assumes "n \<noteq> round_half_even x"
    and "\<bar>of_int n - x\<bar> = \<bar>of_int (round_half_even x) - x\<bar>"
  shows "even (round_half_even x)"
proof -
  define f where "f = \<lfloor>x\<rfloor>"
  define d where "d = x - of_int f"
  have d0: "0 \<le> d" and d1: "d < 1"
    unfolding d_def f_def by linarith+
  have x: "x = of_int f + d"
    by (simp add: d_def)
  have dist: "\<bar>of_int j - x\<bar> = (if j \<le> f then of_int (f - j) + d else of_int (j - f) - d)" for j
  proof (cases "j \<le> f")
    case True
    then have "(of_int j :: rat) \<le> of_int f"
      by (simp only: of_int_le_iff)
    then show ?thesis
      using True d0 by (simp add: x)
  next
    case False
    then have "f + 1 \<le> j"
      by simp
    then have "(of_int (f + 1) :: rat) \<le> of_int j"
      by (simp only: of_int_le_iff)
    then show ?thesis
      using False d1 by (simp add: x)
  qed
  consider "d < 1 / 2" | "1 / 2 < d" | "d = 1 / 2"
    by linarith
  then show ?thesis
  proof cases
    case 1
    then have k: "round_half_even x = f"
      unfolding round_half_even_unfold f_def [symmetric] d_def [symmetric] by simp
    have far: "d < \<bar>of_int n - x\<bar>"
    proof (cases "n \<le> f")
      case True
      with assms(1) k have "1 \<le> f - n"
        by simp
      then have "(of_int 1 :: rat) \<le> of_int (f - n)"
        by (simp only: of_int_le_iff)
      then show ?thesis
        using True by (simp add: dist)
    next
      case False
      then have "1 \<le> n - f"
        by simp
      then have "(of_int 1 :: rat) \<le> of_int (n - f)"
        by (simp only: of_int_le_iff)
      then show ?thesis
        using False 1 by (simp add: dist)
    qed
    have "\<bar>of_int (round_half_even x) - x\<bar> = d"
      by (simp add: k dist)
    with far assms(2) show ?thesis
      by simp
  next
    case 2
    then have k: "round_half_even x = f + 1"
      unfolding round_half_even_unfold f_def [symmetric] d_def [symmetric] by simp
    have far: "1 - d < \<bar>of_int n - x\<bar>"
    proof (cases "n \<le> f")
      case True
      then have "0 \<le> f - n"
        by simp
      then have "(of_int 0 :: rat) \<le> of_int (f - n)"
        by (simp only: of_int_le_iff)
      then show ?thesis
        using True 2 by (simp add: dist)
    next
      case False
      with assms(1) k have "2 \<le> n - f"
        by simp
      then have "(of_int 2 :: rat) \<le> of_int (n - f)"
        by (simp only: of_int_le_iff)
      then show ?thesis
        using False by (simp add: dist)
    qed
    have "\<bar>of_int (round_half_even x) - x\<bar> = 1 - d"
      using dist [of "f + 1"] by (simp add: k)
    with far assms(2) show ?thesis
      by simp
  next
    case 3
    then show ?thesis
      unfolding round_half_even_unfold f_def [symmetric] d_def [symmetric] by simp
  qed
qed

lemma round_half_even_upper: "x < of_int N \<Longrightarrow> round_half_even x \<le> N"
proof -
  assume "x < of_int N"
  then have "\<lfloor>x\<rfloor> < N"
    by (simp add: floor_less_iff)
  then show ?thesis
    using round_half_even_cases [of x] by auto
qed

lemma round_half_even_lower: "of_int N \<le> x \<Longrightarrow> N \<le> round_half_even x"
proof -
  assume "of_int N \<le> x"
  then have "N \<le> \<lfloor>x\<rfloor>"
    by (simp add: le_floor_iff)
  then show ?thesis
    using round_half_even_cases [of x] by auto
qed

lemma round_half_even_midpoint:
  assumes "of_int N - 1 / 2 \<le> x" and "even N"
  shows "N \<le> round_half_even x"
proof (cases "of_int N \<le> x")
  case True
  then show ?thesis by (rule round_half_even_lower)
next
  case False
  have "of_int (N - 1) \<le> x" and "x < of_int (N - 1) + 1"
    using assms(1) False by simp_all
  then have f: "\<lfloor>x\<rfloor> = N - 1"
    by (simp add: floor_unique)
  have odd: "\<not> even (N - 1)"
    using assms(2) by simp
  have "1 / 2 \<le> x - of_int (N - 1)"
    using assms(1) by simp
  then show ?thesis
    using odd by (auto simp: round_half_even_def Let_def f)
qed

subsection \<open>Rounding to binary64 gives a nearest value\<close>

lemma pow2_numeral: "pow2 (numeral n) = 2 ^ numeral n"
  using pow2_nat [of "numeral n"] by simp

lemma pow2_le_iff: "pow2 a \<le> pow2 b \<longleftrightarrow> a \<le> b"
  using pow2_less_iff [of b a] by (simp add: not_less [symmetric])

lemma pow2_mult_eq: "a + b = c \<Longrightarrow> pow2 a * pow2 b = pow2 c"
  using pow2_add [of a b] by simp

lemma pow2_double: "pow2 (e + 1) = 2 * pow2 e"
proof -
  have "pow2 1 = 2"
    by (simp add: pow2_def)
  then show ?thesis
    by (simp add: pow2_add)
qed

lemma ilog2_ge_iff:
  assumes "0 < r"
  shows "e \<le> ilog2 r \<longleftrightarrow> pow2 e \<le> r"
proof
  assume "e \<le> ilog2 r"
  then have "pow2 e \<le> pow2 (ilog2 r)"
    by (rule pow2_mono)
  also have "\<dots> \<le> r"
    using ilog2_bounds(1) [OF assms] .
  finally show "pow2 e \<le> r" .
next
  assume "pow2 e \<le> r"
  also have "r < pow2 (ilog2 r + 1)"
    using ilog2_bounds(2) [OF assms] .
  finally show "e \<le> ilog2 r"
    by (simp add: pow2_less_iff)
qed

lemma overflow_threshold_pow2: "overflow_threshold = pow2 1024 - pow2 970"
proof -
  have "(2::rat) ^ 1024 = pow2 1024" and "(2::rat) ^ 970 = pow2 970"
    by (simp_all add: pow2_def)
  then show ?thesis
    by (simp only: overflow_threshold_def)
qed

lemma overflow_threshold_pos: "0 < overflow_threshold"
proof -
  have "pow2 970 < pow2 1024"
    by (rule pow2_strict_mono) simp
  then show ?thesis
    by (simp add: overflow_threshold_pow2)
qed

lemma binary64_zero: "binary64 0"
  unfolding binary64_def by (rule exI [of _ 0], rule exI [of _ 0]) simp

lemma round64_nearest_pos:
  assumes a: "0 < a"
  shows "nearest_number a False (round64 a)"
proof -
  define L where "L = ilog2 a"
  define E where "E = max L (- 1022)"
  define q where "q = pow2 (E - 52)"
  define x where "x = a / q"
  define k where "k = round_half_even x"
  define m where "m = of_int k * q"
  have q: "0 < q"
    by (simp add: q_def)
  have L1: "pow2 L \<le> a" and L2: "a < pow2 (L + 1)"
    using ilog2_bounds [OF a] by (simp_all add: L_def)
  have E_ge: "- 1022 \<le> E" and LE: "L \<le> E"
    by (simp_all add: E_def)
  have aE: "a < pow2 (E + 1)"
    using L2 pow2_mono [of "L + 1" "E + 1"] LE by simp
  have a_eq: "a = x * q"
    using q by (simp add: x_def)
  have x0: "0 < x"
    using a q by (simp add: x_def)
  have q53: "pow2 53 * q = pow2 (E + 1)"
    unfolding q_def by (rule pow2_mult_eq) simp
  have q52: "pow2 52 * q = pow2 E"
    unfolding q_def by (rule pow2_mult_eq) simp
  have "x * q < pow2 53 * q"
    using aE by (simp add: a_eq [symmetric] q53)
  then have "x < pow2 53"
    using q by (simp add: mult_less_cancel_right)
  then have x53: "x < of_int (2 ^ 53)"
    by (simp add: pow2_def)
  have k53: "k \<le> 2 ^ 53"
    unfolding k_def using x53 by (rule round_half_even_upper)
  have k0: "0 \<le> k"
    unfolding k_def by (rule round_half_even_lower) (use x0 in simp)
  have m0: "0 \<le> m"
    using k0 q by (simp add: m_def)
  have scale: "\<bar>of_int j - x\<bar> * q = \<bar>of_int j * q - a\<bar>" for j
    using q by (simp add: a_eq left_diff_distrib [symmetric] abs_mult)
  have near: "\<bar>m - a\<bar> \<le> \<bar>of_int n * q - a\<bar>" for n
  proof -
    have "\<bar>of_int k - x\<bar> * q \<le> \<bar>of_int n - x\<bar> * q"
      using round_half_even_nearest [of x n] q by (simp add: k_def mult_right_mono less_imp_le)
    then show ?thesis
      by (simp add: scale m_def)
  qed
  have normal: "E = L \<and> pow2 E \<le> a \<and> 2 ^ 52 \<le> k" if "- 1022 < E"
  proof -
    from that have EL: "E = L"
      by (simp add: E_def max_def split: if_splits)
    then have lo: "pow2 E \<le> a"
      using L1 by simp
    have "pow2 52 * q \<le> x * q"
      using lo by (simp add: a_eq [symmetric] q52)
    then have "pow2 52 \<le> x"
      using q by (simp add: mult_le_cancel_right)
    then have "of_int (2 ^ 52) \<le> x"
      by (simp add: pow2_def)
    then have "2 ^ 52 \<le> k"
      unfolding k_def by (rule round_half_even_lower)
    with EL lo show ?thesis
      by simp
  qed
  have r64: "round64 a =
      (if m = 0 then Fin 0 else if 1024 \<le> ilog2 m then PosInf else Fin m)"
    unfolding m_def k_def x_def q_def E_def L_def using a
    by (simp add: round64_def Let_def)
  have over_iff: "m \<noteq> 0 \<and> 1024 \<le> ilog2 m \<longleftrightarrow> pow2 1024 \<le> m"
  proof (cases "m = 0")
    case True
    then show ?thesis
      by (simp add: not_le)
  next
    case False
    with m0 have "0 < m"
      by simp
    from ilog2_ge_iff [OF this, of 1024] False show ?thesis
      by simp
  qed
  have mq: "m \<le> pow2 (E + 1)"
  proof -
    have "(of_int k :: rat) \<le> of_int (2 ^ 53)"
      using k53 by (simp only: of_int_le_iff)
    then have "of_int k \<le> pow2 53"
      by (simp add: pow2_def)
    then have "m \<le> pow2 53 * q"
      using q by (simp add: m_def mult_right_mono less_imp_le)
    then show ?thesis
      by (simp add: q53)
  qed
  have thr: "pow2 1024 \<le> m \<longleftrightarrow> pow2 1024 - pow2 970 \<le> a"
  proof
    assume big: "pow2 1024 \<le> m"
    from big mq have "pow2 1024 \<le> pow2 (E + 1)"
      by (rule order_trans)
    then have E1023: "1023 \<le> E"
      by (simp add: pow2_le_iff)
    then have "- 1022 < E"
      by simp
    from normal [OF this] have nm: "E = L" "pow2 E \<le> a"
      by blast+
    show "pow2 1024 - pow2 970 \<le> a"
    proof (cases "E = 1023")
      case True
      have "\<bar>m - a\<bar> \<le> \<bar>of_int k - x\<bar> * q"
        using q by (simp add: m_def a_eq left_diff_distrib [symmetric] abs_mult)
      moreover have "\<bar>of_int k - x\<bar> \<le> 1 / 2"
        unfolding k_def by (rule round_half_even_half)
      ultimately have "\<bar>m - a\<bar> \<le> 1 / 2 * q"
        using q by (meson mult_right_mono less_imp_le order_trans)
      moreover have "1 / 2 * q = pow2 970"
      proof -
        have "pow2 971 = 2 * pow2 970"
          using pow2_double [of 970] by simp
        then show ?thesis
          by (simp add: q_def True)
      qed
      ultimately have "m - a \<le> pow2 970"
        by simp
      with big show ?thesis
        by simp
    next
      case False
      with E1023 have "1024 \<le> E"
        by simp
      then have "pow2 1024 \<le> pow2 E"
        by (rule pow2_mono)
      with nm(2) have "pow2 1024 \<le> a"
        by simp
      moreover have "0 < pow2 970"
        by simp
      ultimately show ?thesis
        by linarith
    qed
  next
    assume big: "pow2 1024 - pow2 970 \<le> a"
    have "pow2 1024 = 2 * pow2 1023"
      using pow2_double [of 1023] by simp
    moreover have "pow2 970 \<le> pow2 1023"
      by (rule pow2_mono) simp
    ultimately have "pow2 1023 \<le> a"
      using big by simp
    from this L2 have "pow2 1023 < pow2 (L + 1)"
      by (rule le_less_trans)
    then have L1023: "1023 \<le> L"
      by (simp add: pow2_less_iff)
    with LE have "- 1022 < E"
      by simp
    from normal [OF this] have EL: "E = L" and k52: "2 ^ 52 \<le> k"
      by blast+
    show "pow2 1024 \<le> m"
    proof (cases "E = 1023")
      case True
      have q971: "q = pow2 971"
        by (simp add: q_def True)
      have e1: "pow2 53 * pow2 971 = pow2 1024"
        by (rule pow2_mult_eq) simp
      have e2: "pow2 971 = 2 * pow2 970"
        using pow2_double [of 970] by simp
      have "(pow2 53 - 1 / 2) * q = pow2 1024 - pow2 970"
        by (simp add: q971 left_diff_distrib e1) (simp add: e2)
      with big have "(pow2 53 - 1 / 2) * q \<le> a"
        by simp
      then have "(pow2 53 - 1 / 2) * q \<le> x * q"
        using a_eq by simp
      then have "pow2 53 - 1 / 2 \<le> x"
        using q by (simp add: mult_le_cancel_right)
      then have "of_int (2 ^ 53) - 1 / 2 \<le> x"
        by (simp add: pow2_def)
      then have "2 ^ 53 \<le> k"
        unfolding k_def by (rule round_half_even_midpoint) simp
      then have "(of_int (2 ^ 53) :: rat) \<le> of_int k"
        by (simp only: of_int_le_iff)
      then have "pow2 53 \<le> of_int k"
        by (simp add: pow2_def)
      then have "pow2 53 * q \<le> m"
        using q by (simp add: m_def mult_right_mono less_imp_le)
      then show ?thesis
        by (simp add: q971 e1)
    next
      case False
      with L1023 EL have "1024 \<le> E"
        by simp
      then have "pow2 1024 \<le> pow2 E"
        by (rule pow2_mono)
      also have "\<dots> = pow2 52 * q"
        by (simp add: q52)
      also have "\<dots> \<le> m"
      proof -
        have "(of_int (2 ^ 52) :: rat) \<le> of_int k"
          using k52 by (simp only: of_int_le_iff)
        then have "pow2 52 \<le> of_int k"
          by (simp add: pow2_def)
        then show ?thesis
          using q by (simp add: m_def mult_right_mono less_imp_le)
      qed
      finally show ?thesis .
    qed
  qed
  have thr': "overflow_threshold \<le> \<bar>a\<bar> \<longleftrightarrow> pow2 1024 \<le> m"
    unfolding overflow_threshold_pow2 using a by (simp only: abs_of_pos thr)
  show ?thesis
  proof (cases "pow2 1024 \<le> m")
    case True
    then have "round64 a = PosInf"
      using over_iff by (simp add: r64)
    then show ?thesis
      unfolding nearest_number_def thr' using True by simp
  next
    case small: False
    then have m_lt: "m < pow2 1024"
      by simp
    have res: "round64 a = Fin m"
      using small over_iff by (auto simp: r64)
    have "a < pow2 1024"
      using small thr pow2_pos [of 970] by linarith
    with L1 have "pow2 L < pow2 1024"
      by (rule le_less_trans)
    then have "L < 1024"
      by (simp add: pow2_less_iff)
    then have E1023: "E \<le> 1023"
      by (simp add: E_def)
    have rep: "binary64 m"
    proof (cases "k = 2 ^ 53")
      case True
      have "(of_int (2 ^ 53) :: rat) = pow2 53"
        by (simp add: pow2_def)
      then have m_eq: "m = pow2 (E + 1)"
        by (simp add: m_def True q53 del: of_int_power of_int_numeral)
      with m_lt have "E + 1 < 1024"
        by (simp add: pow2_less_iff)
      then have b3: "E - 51 \<le> 971"
        by simp
      have b2: "- 1074 \<le> E - 51"
        using E_ge by simp
      have b1: "\<bar>(2::int) ^ 52\<bar> < 2 ^ 53"
        by simp
      have "m = of_int (2 ^ 52) * 2 powi (E - 51)"
      proof -
        have "(of_int (2 ^ 52) :: rat) = pow2 52"
          by (simp add: pow2_def)
        moreover have "pow2 52 * pow2 (E - 51) = pow2 (E + 1)"
          by (rule pow2_mult_eq) simp
        ultimately show ?thesis
          by (simp add: m_eq pow2_powi [symmetric] del: of_int_power of_int_numeral)
      qed
      with b1 b2 b3 show ?thesis
        unfolding binary64_def by blast
    next
      case False
      with k53 k0 have b1: "\<bar>k\<bar> < 2 ^ 53"
        by simp
      have b2: "- 1074 \<le> E - 52" and b3: "E - 52 \<le> 971"
        using E_ge E1023 by simp_all
      have "m = of_int k * 2 powi (E - 52)"
        by (simp add: m_def q_def pow2_powi)
      with b1 b2 b3 show ?thesis
        unfolding binary64_def by blast
    qed
    have grid: "(\<exists>n. y = of_int n * q) \<or> \<bar>m - a\<bar> < \<bar>y - a\<bar>" if "binary64 y" for y
    proof -
      from that obtain j e where y: "y = of_int j * 2 powi e" and j: "\<bar>j\<bar> < 2 ^ 53"
        and e: "- 1074 \<le> e" "e \<le> 971"
        unfolding binary64_def by blast
      show ?thesis
      proof (cases "E - 52 \<le> e")
        case True
        define s where "s = e - (E - 52)"
        have s0: "0 \<le> s"
          using True by (simp add: s_def)
        have "pow2 e = pow2 s * q"
          unfolding q_def by (rule pow2_mult_eq [symmetric]) (simp add: s_def)
        moreover have "pow2 s = of_int (2 ^ nat s)"
          using s0 by (simp add: pow2_def)
        ultimately have "y = of_int (j * 2 ^ nat s) * q"
          by (simp add: y pow2_powi [symmetric])
        then show ?thesis
          by blast
      next
        case False
        then have eE: "e + 53 \<le> E"
          by simp
        with e(1) have "- 1022 < E"
          by simp
        from normal [OF this] have lo: "pow2 E \<le> a"
          by blast
        have "(of_int \<bar>j\<bar> :: rat) < of_int (2 ^ 53)"
          using j by (simp only: of_int_less_iff)
        then have "of_int \<bar>j\<bar> < pow2 53"
          by (simp add: pow2_def)
        then have "of_int \<bar>j\<bar> * pow2 e < pow2 53 * pow2 e"
          by (simp add: mult_strict_right_mono)
        also have "\<dots> = pow2 (e + 53)"
          by (simp add: pow2_add mult.commute)
        also have "\<dots> \<le> pow2 E"
          using eE by (rule pow2_mono)
        finally have "\<bar>y\<bar> < pow2 E"
          by (simp add: y pow2_powi [symmetric] abs_mult abs_of_pos)
        then have yE: "y < pow2 E"
          by simp
        have "(of_int (2 ^ 52) :: rat) = pow2 52"
          by (simp add: pow2_def)
        then have "pow2 E = of_int (2 ^ 52) * q"
          by (simp add: q52 del: of_int_power of_int_numeral)
        with near [of "2 ^ 52"] have "\<bar>m - a\<bar> \<le> \<bar>pow2 E - a\<bar>"
          by simp
        also have "\<dots> = a - pow2 E"
          using lo by simp
        also have "\<dots> < \<bar>y - a\<bar>"
          using yE lo by simp
        finally show ?thesis
          by blast
      qed
    qed
    have best: "\<bar>m - a\<bar> \<le> \<bar>y - a\<bar>" if "binary64 y" for y
      using grid [OF that] near by (auto simp: less_imp_le)
    have k_even: "even k" if y: "binary64 y" and ne: "y \<noteq> m" and eq: "\<bar>y - a\<bar> = \<bar>m - a\<bar>" for y
    proof -
      from grid [OF y] eq obtain n where n: "y = of_int n * q"
        by auto
      with ne have nk: "n \<noteq> round_half_even x"
        by (auto simp: m_def k_def)
      have "\<bar>of_int n - x\<bar> * q = \<bar>of_int k - x\<bar> * q"
        using eq by (simp add: scale n m_def)
      then have "\<bar>of_int n - x\<bar> = \<bar>of_int (round_half_even x) - x\<bar>"
        using q by (simp add: k_def)
      with nk show ?thesis
        unfolding k_def by (rule round_half_even_tie)
    qed
    have tie: "even_significand m" if "even k"
    proof (cases "k = 2 ^ 53")
      case True
      have "(of_int (2 ^ 53) :: rat) = pow2 53"
        by (simp add: pow2_def)
      then have m_eq: "m = pow2 (E + 1)"
        by (simp add: m_def True q53 del: of_int_power of_int_numeral)
      with m_lt have "E + 1 < 1024"
        by (simp add: pow2_less_iff)
      then have b3: "E - 51 \<le> 971"
        by simp
      have b2: "- 1074 \<le> E - 51"
        using E_ge by simp
      have b1: "\<bar>2 * (2::int) ^ 51\<bar> < 2 ^ 53" and b4: "2 ^ 52 \<le> \<bar>2 * (2::int) ^ 51\<bar>"
        by simp_all
      have "(of_int (2 * 2 ^ 51) :: rat) = pow2 52"
        by (simp add: pow2_def)
      moreover have "pow2 52 * pow2 (E - 51) = pow2 (E + 1)"
        by (rule pow2_mult_eq) simp
      ultimately have "m = of_int (2 * 2 ^ 51) * 2 powi (E - 51)"
        by (simp add: m_eq pow2_powi [symmetric] del: of_int_power of_int_numeral of_int_mult)
      with b1 b2 b3 b4 show ?thesis
        unfolding even_significand_def by blast
    next
      case False
      from that obtain h where h: "k = 2 * h"
        by (auto elim: evenE)
      from False k53 k0 have b1: "\<bar>2 * h\<bar> < 2 ^ 53"
        by (simp add: h)
      have b2: "- 1074 \<le> E - 52" and b3: "E - 52 \<le> 971"
        using E_ge E1023 by simp_all
      have b4: "E - 52 = - 1074 \<or> 2 ^ 52 \<le> \<bar>2 * h\<bar>"
      proof (cases "- 1022 < E")
        case True
        from normal [OF this] have "2 ^ 52 \<le> k"
          by blast
        then show ?thesis
          by (simp add: h)
      next
        case False
        with E_ge show ?thesis
          by simp
      qed
      have "m = of_int (2 * h) * 2 powi (E - 52)"
        by (simp add: m_def q_def pow2_powi h)
      with b1 b2 b3 b4 show ?thesis
        unfolding even_significand_def by blast
    qed
    have "nearest_binary64 a m"
      unfolding nearest_binary64_def using rep best k_even tie by blast
    then show ?thesis
      unfolding nearest_number_def thr' using small by (auto simp: res)
  qed
qed

lemma round64_nearest:
  assumes "0 \<le> a"
  shows "nearest_number a False (round64 a)"
proof (cases "a = 0")
  case True
  have "\<not> overflow_threshold \<le> \<bar>0\<bar>"
    using overflow_threshold_pos by simp
  moreover have "nearest_binary64 0 0"
    by (auto simp: nearest_binary64_def binary64_zero)
  ultimately show ?thesis
    by (auto simp: True round64_def nearest_number_def)
next
  case False
  with assms have "0 < a"
    by simp
  then show ?thesis
    by (rule round64_nearest_pos)
qed

subsection \<open>Negation\<close>

lemma binary64_neg: "binary64 (- x) \<longleftrightarrow> binary64 x"
proof -
  have "binary64 (- y)" if "binary64 y" for y
  proof -
    from that obtain m e where y: "y = of_int m * 2 powi e" and m: "\<bar>m\<bar> < 2 ^ 53"
      and e: "- 1074 \<le> e" "e \<le> 971"
      unfolding binary64_def by blast
    have "- y = of_int (- m) * 2 powi e"
      by (simp add: y)
    moreover have "\<bar>- m\<bar> < 2 ^ 53"
      using m by simp
    ultimately show ?thesis
      unfolding binary64_def using e by blast
  qed
  from this [of x] this [of "- x"] show ?thesis
    by auto
qed

lemma even_significand_neg:
  assumes "even_significand x"
  shows "even_significand (- x)"
proof -
  from assms obtain m e where x: "x = of_int (2 * m) * 2 powi e" and m: "\<bar>2 * m\<bar> < 2 ^ 53"
    and e: "- 1074 \<le> e" "e \<le> 971" and c: "e = - 1074 \<or> 2 ^ 52 \<le> \<bar>2 * m\<bar>"
    unfolding even_significand_def by blast
  have "- x = of_int (2 * (- m)) * 2 powi e"
    by (simp add: x)
  moreover have "\<bar>2 * (- m)\<bar> < 2 ^ 53"
    using m by simp
  moreover have "e = - 1074 \<or> 2 ^ 52 \<le> \<bar>2 * (- m)\<bar>"
    using c by simp
  ultimately show ?thesis
    unfolding even_significand_def using e by blast
qed

lemma nearest_binary64_neg:
  assumes "nearest_binary64 v x"
  shows "nearest_binary64 (- v) (- x)"
proof -
  have flip: "\<bar>- y - v\<bar> = \<bar>y - - v\<bar>" for y
  proof -
    have "- y - v = - (y - - v)"
      by simp
    then show ?thesis
      by (simp only: abs_minus_cancel)
  qed
  have same: "\<bar>- x - - v\<bar> = \<bar>x - v\<bar>"
    using flip [of "- x"] by simp
  have "\<bar>- x - - v\<bar> \<le> \<bar>y - - v\<bar>" if "binary64 y" for y
  proof -
    from that have "binary64 (- y)"
      by (simp add: binary64_neg)
    with assms have "\<bar>x - v\<bar> \<le> \<bar>- y - v\<bar>"
      unfolding nearest_binary64_def by blast
    then show ?thesis
      by (simp only: flip same)
  qed
  moreover have "binary64 (- x)"
    using assms by (simp add: nearest_binary64_def binary64_neg)
  moreover have "even_significand (- x)"
    if "binary64 y" and "y \<noteq> - x" and "\<bar>y - - v\<bar> = \<bar>- x - - v\<bar>" for y
  proof -
    have "binary64 (- y)"
      using that(1) by (simp add: binary64_neg)
    moreover have "- y \<noteq> x"
      using that(2) by auto
    moreover have "\<bar>- y - v\<bar> = \<bar>x - v\<bar>"
      using that(3) by (simp only: flip same)
    ultimately have "even_significand x"
      using assms unfolding nearest_binary64_def by blast
    then show ?thesis
      by (rule even_significand_neg)
  qed
  ultimately show ?thesis
    unfolding nearest_binary64_def by blast
qed

lemma nearest_number_negate:
  assumes "nearest_number a False n"
  shows "nearest_number (- a) True (js_negate n)"
proof (cases "overflow_threshold \<le> \<bar>a\<bar>")
  case True
  with assms have "n = PosInf"
    unfolding nearest_number_def by (simp only: if_True if_False)
  moreover have "overflow_threshold \<le> \<bar>- a\<bar>"
    using True by simp
  ultimately show ?thesis
    unfolding nearest_number_def by (simp add: js_negate_def)
next
  case False
  with assms have "\<exists>x. nearest_binary64 a x \<and> n = (if x = 0 \<and> False then NegZero else Fin x)"
    unfolding nearest_number_def by (simp only: if_False)
  then obtain x where x: "nearest_binary64 a x" and n: "n = Fin x"
    by auto
  have "js_negate n = (if - x = 0 \<and> True then NegZero else Fin (- x))"
    by (simp add: n js_negate_def)
  with nearest_binary64_neg [OF x]
  have "\<exists>x'. nearest_binary64 (- a) x'
      \<and> js_negate n = (if x' = 0 \<and> True then NegZero else Fin x')"
    by blast
  moreover have "\<not> overflow_threshold \<le> \<bar>- a\<bar>"
    using False by simp
  ultimately show ?thesis
    unfolding nearest_number_def by (simp only: if_False)
qed

subsection \<open>\<^verbatim>\<open>Math.min\<close> and \<^verbatim>\<open>Math.max\<close>\<close>

lemma js_less_trans_neg:
  assumes "a \<noteq> NaN" "b \<noteq> NaN" "c \<noteq> NaN" "\<not> js_less b a" "\<not> js_less c b"
  shows "\<not> js_less c a"
  using assms by (cases a; cases b; cases c) (auto simp: js_less_def value_of_def)

lemma js_less_irrefl [simp]: "\<not> js_less a a"
  by (cases a) (auto simp: js_less_def)

lemma min_step_cases: "min_step a n = a \<or> min_step a n = n"
  by (simp add: min_step_def)

lemma min_step_lower:
  assumes "a \<noteq> NaN" "n \<noteq> NaN"
  shows "\<not> js_less a (min_step a n)" and "\<not> js_less n (min_step a n)"
  using assms by (cases a; cases n; auto simp: min_step_def js_less_def value_of_def)+

lemma foldl_min_step:
  assumes "a \<noteq> NaN" "NaN \<notin> set ns"
  shows "foldl min_step a ns \<in> insert a (set ns)
         \<and> (\<forall>n \<in> insert a (set ns). \<not> js_less n (foldl min_step a ns))
         \<and> foldl min_step a ns \<noteq> NaN"
  using assms
proof (induction ns arbitrary: a)
  case Nil
  then show ?case by simp
next
  case (Cons n ns)
  let ?a = "min_step a n"
  let ?r = "foldl min_step ?a ns"
  have n: "n \<noteq> NaN" and ns: "NaN \<notin> set ns"
    using Cons.prems(2) by auto
  have a': "?a \<noteq> NaN"
    using min_step_cases [of a n] Cons.prems(1) n by auto
  from Cons.IH [OF a' ns]
  have mem: "?r \<in> insert ?a (set ns)"
    and low: "\<forall>x \<in> insert ?a (set ns). \<not> js_less x ?r"
    and r: "?r \<noteq> NaN"
    by blast+
  from low have "\<not> js_less ?a ?r"
    by simp
  then have "\<not> js_less a ?r" and "\<not> js_less n ?r"
    using js_less_trans_neg [OF r a' Cons.prems(1)] js_less_trans_neg [OF r a' n]
      min_step_lower [OF Cons.prems(1) n]
    by blast+
  moreover have "?r \<in> insert a (set (n # ns))"
    using mem min_step_cases [of a n] by auto
  ultimately show ?case
    using low r by simp
qed

lemma math_min_least:
  assumes "NaN \<notin> set ns" "ns \<noteq> []"
  shows "math_min ns \<in> set ns" and "\<forall>n \<in> set ns. \<not> js_less n (math_min ns)"
proof -
  let ?r = "foldl min_step PosInf ns"
  have r: "?r \<in> insert PosInf (set ns)" and low: "\<forall>n \<in> set ns. \<not> js_less n ?r"
    using foldl_min_step [of PosInf ns] assms(1) by simp_all
  show "\<forall>n \<in> set ns. \<not> js_less n (math_min ns)"
    using low assms(1) by (simp add: math_min_def)
  have "?r \<in> set ns"
  proof (cases "?r = PosInf")
    case True
    obtain n where n: "n \<in> set ns"
      using assms(2) by (cases ns) auto
    with low True have "\<not> js_less n PosInf"
      by simp
    moreover have "n \<noteq> NaN"
      using n assms(1) by auto
    ultimately have "n = PosInf"
      by (cases n) (auto simp: js_less_def)
    with n True show ?thesis by simp
  next
    case False
    with r show ?thesis by simp
  qed
  then show "math_min ns \<in> set ns"
    using assms(1) by (simp add: math_min_def)
qed

lemma max_step_cases: "max_step a n = a \<or> max_step a n = n"
  by (simp add: max_step_def)

lemma max_step_upper:
  assumes "a \<noteq> NaN" "n \<noteq> NaN"
  shows "\<not> js_less (max_step a n) a" and "\<not> js_less (max_step a n) n"
  using assms by (cases a; cases n; auto simp: max_step_def js_less_def value_of_def)+

lemma foldl_max_step:
  assumes "a \<noteq> NaN" "NaN \<notin> set ns"
  shows "foldl max_step a ns \<in> insert a (set ns)
         \<and> (\<forall>n \<in> insert a (set ns). \<not> js_less (foldl max_step a ns) n)
         \<and> foldl max_step a ns \<noteq> NaN"
  using assms
proof (induction ns arbitrary: a)
  case Nil
  then show ?case by simp
next
  case (Cons n ns)
  let ?a = "max_step a n"
  let ?r = "foldl max_step ?a ns"
  have n: "n \<noteq> NaN" and ns: "NaN \<notin> set ns"
    using Cons.prems(2) by auto
  have a': "?a \<noteq> NaN"
    using max_step_cases [of a n] Cons.prems(1) n by auto
  from Cons.IH [OF a' ns]
  have mem: "?r \<in> insert ?a (set ns)"
    and up: "\<forall>x \<in> insert ?a (set ns). \<not> js_less ?r x"
    and r: "?r \<noteq> NaN"
    by blast+
  from up have "\<not> js_less ?r ?a"
    by simp
  then have "\<not> js_less ?r a" and "\<not> js_less ?r n"
    using js_less_trans_neg [OF Cons.prems(1) a' r] js_less_trans_neg [OF n a' r]
      max_step_upper [OF Cons.prems(1) n]
    by blast+
  moreover have "?r \<in> insert a (set (n # ns))"
    using mem max_step_cases [of a n] by auto
  ultimately show ?case
    using up r by simp
qed

lemma math_max_greatest:
  assumes "NaN \<notin> set ns" "ns \<noteq> []"
  shows "math_max ns \<in> set ns" and "\<forall>n \<in> set ns. \<not> js_less (math_max ns) n"
proof -
  let ?r = "foldl max_step NegInf ns"
  have r: "?r \<in> insert NegInf (set ns)" and up: "\<forall>n \<in> set ns. \<not> js_less ?r n"
    using foldl_max_step [of NegInf ns] assms(1) by simp_all
  show "\<forall>n \<in> set ns. \<not> js_less (math_max ns) n"
    using up assms(1) by (simp add: math_max_def)
  have "?r \<in> set ns"
  proof (cases "?r = NegInf")
    case True
    obtain n where n: "n \<in> set ns"
      using assms(2) by (cases ns) auto
    with up True have "\<not> js_less NegInf n"
      by simp
    moreover have "n \<noteq> NaN"
      using n assms(1) by auto
    ultimately have "n = NegInf"
      by (cases n) (auto simp: js_less_def)
    with n True show ?thesis by simp
  next
    case False
    with r show ?thesis by simp
  qed
  then show "math_max ns \<in> set ns"
    using assms(1) by (simp add: math_max_def)
qed


subsection \<open>Sums of integers\<close>

lemma js_add_int:
  assumes "\<bar>a + k\<bar> \<le> 2 ^ 53"
  shows "js_add (Fin (of_int a)) (Fin (of_int k)) = Fin (of_int (a + k))"
  using round64_of_int [OF assms]
  by (simp add: js_add_def is_infinite_def value_of_def)

lemma foldl_js_add_exact:
  assumes "\<forall>n \<in> set ns. \<exists>k. n = Fin (of_int k)"
    and "\<bar>of_int a\<bar> + (\<Sum>n\<leftarrow>ns. \<bar>value_of n\<bar>) \<le> 2 ^ 53"
  shows "foldl js_add (Fin (of_int a)) ns = Fin (of_int a + (\<Sum>n\<leftarrow>ns. value_of n))"
  using assms
proof (induction ns arbitrary: a)
  case Nil
  then show ?case by simp
next
  case (Cons n ns)
  from Cons.prems(1) obtain k where n: "n = Fin (of_int k)"
    by auto
  have nonneg: "0 \<le> (\<Sum>n\<leftarrow>ns. \<bar>value_of n\<bar>)"
    by (rule sum_list_nonneg) auto
  have bound: "\<bar>of_int a\<bar> + \<bar>of_int k\<bar> + (\<Sum>n\<leftarrow>ns. \<bar>value_of n\<bar>) \<le> (2 ^ 53 :: rat)"
    using Cons.prems(2) by (simp add: n value_of_def)
  have "(\<bar>of_int (a + k)\<bar> :: rat) \<le> \<bar>of_int a\<bar> + \<bar>of_int k\<bar>"
    by simp
  with bound nonneg have "(of_int \<bar>a + k\<bar> :: rat) \<le> of_int (2 ^ 53)"
    by simp
  then have ak: "\<bar>a + k\<bar> \<le> 2 ^ 53"
    by (simp only: of_int_le_iff)
  have step: "js_add (Fin (of_int a)) n = Fin (of_int (a + k))"
    unfolding n by (rule js_add_int [OF ak])
  have "\<bar>of_int (a + k)\<bar> + (\<Sum>n\<leftarrow>ns. \<bar>value_of n\<bar>) \<le> (2 ^ 53 :: rat)"
    using bound by simp
  from Cons.IH [OF _ this] Cons.prems(1)
  have "foldl js_add (Fin (of_int (a + k))) ns = Fin (of_int (a + k) + (\<Sum>n\<leftarrow>ns. value_of n))"
    by simp
  moreover have "value_of n = of_int k"
    by (simp add: n value_of_def)
  ultimately show ?case
    by (simp add: step add.assoc)
qed

lemma sum_exact:
  assumes "\<forall>n \<in> set ns. \<exists>k. n = Fin (of_int k)"
    and "(\<Sum>n\<leftarrow>ns. \<bar>value_of n\<bar>) \<le> 2 ^ 53"
  shows "foldl js_add (Fin 0) ns = Fin (\<Sum>n\<leftarrow>ns. value_of n)"
  using foldl_js_add_exact [of ns 0] assms by simp

section \<open>Properties of the profiler\<close>

subsection \<open>Assignment to a property\<close>

lemma set_obj_set: "set (obj_set obj k v) \<subseteq> insert (k, v) (set obj)"
  by (auto simp: obj_set_def split: if_splits)

lemma obj_set_all:
  assumes "\<forall>(c, st) \<in> set obj. P c st" and "P k v"
  shows "\<forall>(c, st) \<in> set (obj_set obj k v). P c st"
proof -
  have "P c st" if "(c, st) \<in> set (obj_set obj k v)" for c st
  proof -
    from that set_obj_set [of obj k v] have "(c, st) = (k, v) \<or> (c, st) \<in> set obj"
      by auto
    then show ?thesis using assms by auto
  qed
  then show ?thesis by auto
qed

subsection \<open>What \<^verbatim>\<open>buildProfile\<close> stores for a column\<close>

lemma bind_result_Inl [simp]: "bind_result (Inl e) f = Inl e"
  by (simp add: bind_result_def)

lemma bind_result_Inr [simp]: "bind_result (Inr x) f = f x"
  by (simp add: bind_result_def)

lemma profile_column_eq:
  "profile_column limit rows acc col =
     (if length (column_nums rows col) \<le> limit then Inr (store_column rows acc col)
      else Inl RangeError)"
  by (auto simp: profile_column_def store_column_def stat_of_def spread_call_def Let_def)

lemma foldl_raised:
  "foldl (\<lambda>acc col. bind_result acc (\<lambda>numCols. f numCols col)) (Inl e) cols = Inl e"
  by (induction cols) simp_all

lemma foldl_profile_column:
  "foldl (\<lambda>acc col. bind_result acc (\<lambda>numCols. profile_column limit rows numCols col))
     (Inr acc) cols =
     (if list_all (\<lambda>col. length (column_nums rows col) \<le> limit) cols
      then Inr (foldl (store_column rows) acc cols) else Inl RangeError)"
proof (induction cols arbitrary: acc)
  case Nil
  then show ?case by simp
next
  case (Cons col cols)
  show ?case
  proof (cases "length (column_nums rows col) \<le> limit")
    case True
    then show ?thesis
      using Cons.IH [of "store_column rows acc col"] by (simp add: profile_column_eq)
  next
    case False
    then show ?thesis
      by (simp add: profile_column_eq foldl_raised)
  qed
qed

lemma buildProfile_eq:
  "buildProfile limit rows =
     (if rows = [] then Inr \<lparr>rowCount = 0, numericCols = []\<rparr>
      else if within_limit limit rows then
        Inr \<lparr>rowCount = length rows,
             numericCols = foldl (store_column rows) [] (object_keys (hd rows))\<rparr>
      else Inl RangeError)"
  by (simp add: buildProfile_def Let_def foldl_profile_column within_limit_def)

lemma within_limit_mono: "within_limit l rows \<Longrightarrow> l \<le> l' \<Longrightarrow> within_limit l' rows"
  by (auto simp: within_limit_def list_all_iff)

lemma buildProfile_mono:
  "buildProfile l rows = Inr p \<Longrightarrow> l \<le> l' \<Longrightarrow> buildProfile l' rows = Inr p"
  using within_limit_mono [of l rows l'] by (auto simp: buildProfile_eq split: if_splits)

lemma store_column_inv:
  assumes "\<forall>(c, st) \<in> set acc. st = stat_of rows c \<and> column_nums rows c \<noteq> []"
  shows "\<forall>(c, st) \<in> set (store_column rows acc col).
           st = stat_of rows c \<and> column_nums rows c \<noteq> []"
proof (cases "column_nums rows col = []")
  case True
  then show ?thesis using assms by (simp add: store_column_def)
next
  case False
  then have eq: "store_column rows acc col = obj_set acc col (stat_of rows col)"
    by (simp add: store_column_def)
  show ?thesis
    unfolding eq
    by (rule obj_set_all [where P = "\<lambda>c st. st = stat_of rows c \<and> column_nums rows c \<noteq> []"])
       (use assms False in simp_all)
qed

lemma foldl_store_column_inv:
  "\<forall>(c, st) \<in> set acc. st = stat_of rows c \<and> column_nums rows c \<noteq> [] \<Longrightarrow>
   \<forall>(c, st) \<in> set (foldl (store_column rows) acc cols).
     st = stat_of rows c \<and> column_nums rows c \<noteq> []"
proof (induction cols arbitrary: acc)
  case Nil
  then show ?case by simp
next
  case (Cons col cols)
  show ?case
    using Cons.IH [OF store_column_inv [OF Cons.prems]] by simp
qed

lemma numericCols_entry:
  assumes "buildProfile limit rows = Inr p" and "(col, st) \<in> set (numericCols p)"
  shows "st = stat_of rows col" and "column_nums rows col \<noteq> []"
proof -
  have inv: "\<forall>(c, st) \<in> set (foldl (store_column rows) [] cols).
      st = stat_of rows c \<and> column_nums rows c \<noteq> []" for cols
    by (rule foldl_store_column_inv) simp
  from assms have "(col, st) \<in> set (foldl (store_column rows) [] (object_keys (hd rows)))"
    by (auto simp: buildProfile_eq split: if_splits)
  with inv show "st = stat_of rows col" and "column_nums rows col \<noteq> []"
    by blast+
qed

lemma column_nums_no_NaN: "NaN \<notin> set (column_nums rows col)"
  by (simp add: column_nums_def isNaN_def)

lemma count_column_nums:
  "length (column_nums rows col) =
     card {i. i < length rows \<and> \<not> isNaN (parseFloat (row_get (rows ! i) col))}"
proof -
  have "{i. i < length rows \<and> \<not> isNaN (map (\<lambda>r. parseFloat (row_get r col)) rows ! i)} =
      {i. i < length rows \<and> \<not> isNaN (parseFloat (row_get (rows ! i) col))}"
    by auto
  then show ?thesis
    by (simp add: column_nums_def length_filter_conv_card)
qed


subsection \<open>The numbers collected for a column\<close>

lemma column_nums_append:
  "column_nums (rows1 @ rows2) col = column_nums rows1 col @ column_nums rows2 col"
  by (simp add: column_nums_def)

lemma column_nums_Cons:
  "column_nums (r # rows) col =
     (if isNaN (parseFloat (row_get r col)) then column_nums rows col
      else parseFloat (row_get r col) # column_nums rows col)"
  by (simp add: column_nums_def)

lemma profile_column_cong:
  "column_nums rows col = column_nums rows' col \<Longrightarrow>
   profile_column limit rows acc col = profile_column limit rows' acc col"
  by (simp add: profile_column_def)

subsection \<open>\<^verbatim>\<open>parseFloat\<close> on a decimal number followed by other characters\<close>

lemma digit_not_white_space:
  assumes "is_digit c"
  shows "\<not> is_white_space c"
proof -
  from assms have "unat c \<le> 57" and "48 \<le> unat c"
    by (simp_all add: is_digit_def word_le_nat_alt)
  then show ?thesis
    by (auto simp: is_white_space_def word_le_nat_alt)
qed

lemma digits_value_snoc: "digits_value (ds @ [c]) = 10 * digits_value ds + digit_value c"
  by (simp add: digits_value_def)

subsection \<open>The value of a string of digits\<close>

lemma digits_number_snoc:
  "digits_number (ds @ [c]) = 10 * digits_number ds + (unat c - 48)"
proof -
  let ?n = "length ds"
  have "map (\<lambda>i. (unat ((ds @ [c]) ! i) - 48) * 10 ^ (?n - i)) [0..<?n] =
      map (\<lambda>i. 10 * ((unat (ds ! i) - 48) * 10 ^ (?n - Suc i))) [0..<?n]"
  proof (rule map_cong [OF refl])
    fix i
    assume "i \<in> set [0..<?n]"
    then have i: "i < ?n"
      by simp
    then have "?n - i = Suc (?n - Suc i)"
      by simp
    then show "(unat ((ds @ [c]) ! i) - 48) * 10 ^ (?n - i) =
        10 * ((unat (ds ! i) - 48) * 10 ^ (?n - Suc i))"
      using i by (simp add: nth_append)
  qed
  then have "(\<Sum>i\<leftarrow>[0..<?n]. (unat ((ds @ [c]) ! i) - 48) * 10 ^ (?n - i)) =
      (\<Sum>i\<leftarrow>[0..<?n]. 10 * ((unat (ds ! i) - 48) * 10 ^ (?n - Suc i)))"
    by (simp only:)
  also have "\<dots> = 10 * digits_number ds"
    by (simp only: digits_number_def sum_list_const_mult)
  finally show ?thesis
    by (simp add: digits_number_def)
qed

lemma digit_value_unat: "is_digit c \<Longrightarrow> digit_value c = int (unat c - 48)"
proof -
  assume "is_digit c"
  then have "48 \<le> unat c"
    by (simp add: is_digit_def word_le_nat_alt)
  then have "int (unat c - 48) = int (unat c) - int 48"
    by (rule of_nat_diff)
  then show ?thesis
    unfolding digit_value_def uint_nat by simp
qed

lemma digits_value_number: "list_all is_digit ds \<Longrightarrow> digits_value ds = int (digits_number ds)"
proof (induction ds rule: rev_induct)
  case Nil
  show ?case
    by (simp add: digits_value_def digits_number_def)
next
  case (snoc c ds)
  then have "digits_value ds = int (digits_number ds)" and "is_digit c"
    by simp_all
  then show ?case
    by (simp add: digits_value_snoc digits_number_snoc digit_value_unat)
qed

lemma pow10_powi: "pow10 k = 10 powi k"
  by (simp add: pow10_def power_int_def inverse_eq_divide power_one_over)

subsection \<open>Scanning digits\<close>

lemma scan_digits:
  assumes "list_all is_digit ds" and "r = [] \<or> \<not> is_digit (hd r)"
  shows "takeWhile is_digit (ds @ r) = ds" and "dropWhile is_digit (ds @ r) = r"
proof -
  have all: "\<forall>c \<in> set ds. is_digit c"
    using assms(1) by (simp add: list_all_iff)
  have "takeWhile is_digit r = []" and "dropWhile is_digit r = r"
    using assms(2) by (cases r; simp)+
  then show "takeWhile is_digit (ds @ r) = ds" and "dropWhile is_digit (ds @ r) = r"
    using all by (simp_all add: takeWhile_append2 dropWhile_append2)
qed

lemma scan_exponent_none:
  assumes "\<not> exponent_start t"
  shows "scan_exponent t = 0"
proof (cases t)
  case Nil
  then show ?thesis
    by (simp add: scan_exponent_def)
next
  case (Cons e r)
  show ?thesis
  proof (cases "e = 0x65 \<or> e = 0x45")
    case False
    then show ?thesis
      by (auto simp: scan_exponent_def Cons)
  next
    case True
    show ?thesis
    proof (cases r)
      case Nil
      then show ?thesis
        using True by (auto simp: scan_exponent_def Cons)
    next
      case r: (Cons c r')
      have c: "\<not> is_digit c" and r': "(c = 0x2B \<or> c = 0x2D) \<longrightarrow> r' = [] \<or> \<not> is_digit (hd r')"
        using assms True by (auto simp: exponent_start_def Cons r)
      have "takeWhile is_digit (if c = 0x2B \<or> c = 0x2D then r' else r) = []"
        using c r' by (cases r') (auto simp: r)
      then show ?thesis
        using True by (auto simp: scan_exponent_def Cons r Let_def)
    qed
  qed
qed

lemma sign_text_cases:
  "sign_text s = [] \<and> s = NoSign \<or> sign_text s = [0x2B] \<and> s = PlusSign
   \<or> sign_text s = [0x2D] \<and> s = MinusSign"
  by (cases s) (simp_all add: sign_text_def)

lemma digit_not_sign: "is_digit c \<Longrightarrow> c \<noteq> 0x2D \<and> c \<noteq> 0x2B"
  by (auto simp: is_digit_def)

lemma scan_exponent_some:
  assumes e: "e = 0x65 \<or> e = 0x45" and ds: "ds \<noteq> []" "list_all is_digit ds"
    and t: "t = [] \<or> \<not> is_digit (hd t)"
  shows "scan_exponent (e # sign_text s @ ds @ t) =
     (if s = MinusSign then - digits_value ds else digits_value ds)"
proof -
  obtain c ds' where ds_eq: "ds = c # ds'"
    using ds(1) by (cases ds) auto
  then have c: "is_digit c"
    using ds(2) by simp
  then have cs: "c \<noteq> 0x2D" "c \<noteq> 0x2B"
    using digit_not_sign by blast+
  have tw: "takeWhile is_digit (ds @ t) = ds"
    using scan_digits(1) [OF ds(2) t] .
  show ?thesis
  proof (cases s)
    case NoSign
    then show ?thesis
      using e cs ds(1) tw [unfolded ds_eq]
      by (simp add: scan_exponent_def sign_text_def Let_def ds_eq)
  next
    case PlusSign
    then show ?thesis
      using e ds(1) tw by (simp add: scan_exponent_def sign_text_def Let_def)
  next
    case MinusSign
    then show ?thesis
      using e ds(1) tw by (simp add: scan_exponent_def sign_text_def Let_def)
  qed
qed

lemma not_Infinity: "c \<noteq> 0x49 \<Longrightarrow> take 8 (c # s) \<noteq> lit ''Infinity''"
  by (auto simp: lit_def)

lemma decimal_magnitude:
  "\<bar>decimal_value d\<bar> =
     (of_nat (digits_number (integer_digits d))
      + (case fraction_digits d of
           None \<Rightarrow> 0
         | Some f \<Rightarrow> of_nat (digits_number f) / 10 ^ length f))
     * 10 powi
         (case exponent d of
            None \<Rightarrow> 0
          | Some (e, s, ds) \<Rightarrow>
              if s = MinusSign then - int (digits_number ds) else int (digits_number ds))"
  (is "_ = ?m * ?p")
proof -
  have "0 \<le> ?m"
    by (simp split: option.splits)
  moreover have "(0::rat) < ?p"
    by simp
  ultimately have "0 \<le> ?m * ?p"
    by simp
  then have "\<bar>?m * ?p\<bar> = ?m * ?p"
    by (rule abs_of_nonneg)
  moreover have "\<bar>decimal_value d\<bar> = \<bar>?m * ?p\<bar>"
    by (simp add: decimal_value_def abs_mult)
  ultimately show ?thesis
    by simp
qed

lemma decimal_value_sign:
  "decimal_value d = (if sign d = MinusSign then - \<bar>decimal_value d\<bar> else \<bar>decimal_value d\<bar>)"
proof -
  have sign_cases: "(if sign d = MinusSign then - 1 else 1) * m * p =
      (if sign d = MinusSign then - (m * p) else m * p)" for m p :: rat
    by simp
  show ?thesis
    unfolding decimal_magnitude unfolding decimal_value_def by (rule sign_cases)
qed

lemma scan_unsigned_decimal:
  assumes wf: "well_formed d" and en: "ends_number d t"
  shows "scan_unsigned
       (integer_digits d
        @ (case fraction_digits d of None \<Rightarrow> [] | Some f \<Rightarrow> 0x2E # f)
        @ (case exponent d of None \<Rightarrow> [] | Some (e, s, ds) \<Rightarrow> e # sign_text s @ ds)
        @ t) =
     round64 \<bar>decimal_value d\<bar>"
proof -
  define ip where "ip = integer_digits d"
  define X where "X = (case exponent d of None \<Rightarrow> [] | Some (e, s, ds) \<Rightarrow> e # sign_text s @ ds)"
  define ex where "ex = (case exponent d of
      None \<Rightarrow> 0
    | Some (e, s, ds) \<Rightarrow>
        if s = MinusSign then - int (digits_number ds) else int (digits_number ds))"
  have ip: "list_all is_digit ip"
    using wf by (simp add: well_formed_def ip_def)
  have t: "t = [] \<or> \<not> is_digit (hd t)"
    using en by (simp add: ends_number_def)
  have Xt: "X @ t = [] \<or> \<not> is_digit (hd (X @ t))"
    using wf t by (auto simp: X_def well_formed_def is_digit_def split: option.splits)
  have dot: "X @ t = [] \<or> hd (X @ t) \<noteq> 0x2E" if "fraction_digits d = None"
    using wf en that by (auto simp: X_def well_formed_def ends_number_def split: option.splits)
  have scan: "scan_exponent (X @ t) = ex"
  proof (cases "exponent d")
    case None
    then have "\<not> exponent_start t"
      using en by (simp add: ends_number_def)
    then show ?thesis
      by (simp add: X_def ex_def None scan_exponent_none)
  next
    case (Some x)
    obtain e s ds where x: "x = (e, s, ds)"
      by (cases x)
    have e: "e = 0x65 \<or> e = 0x45" and ds: "ds \<noteq> []" "list_all is_digit ds"
      using wf by (simp_all add: well_formed_def Some x)
    show ?thesis
      using scan_exponent_some [OF e ds t, of s]
      by (simp add: X_def ex_def Some x digits_value_number [OF ds(2)])
  qed
  have first: "take 8 (ip @ r) \<noteq> lit ''Infinity''" if "ip \<noteq> []" for r
  proof -
    from that obtain c cs where c: "ip = c # cs"
      by (cases ip) auto
    with ip have "is_digit c"
      by simp
    then have "c \<noteq> 0x49"
      by (auto simp: is_digit_def)
    then show ?thesis
      unfolding c append_Cons by (rule not_Infinity)
  qed
  show ?thesis
  proof (cases "fraction_digits d")
    case None
    have ne: "ip \<noteq> []"
      using wf by (simp add: well_formed_def None ip_def)
    have tw: "takeWhile is_digit (ip @ X @ t) = ip" and dw: "dropWhile is_digit (ip @ X @ t) = X @ t"
      using scan_digits [OF ip Xt] by simp_all
    have nodot: "\<not> (case X @ t of [] \<Rightarrow> False | c # _ \<Rightarrow> c = 0x2E)"
      using dot [OF None] by (cases "X @ t") auto
    have "scan_unsigned (ip @ X @ t) = round64 (of_int (digits_value ip) * pow10 ex)"
      using first [OF ne, of "X @ t"] nodot ne
      by (simp add: scan_unsigned_def Let_def tw dw scan digits_value_def)
    then show ?thesis
      unfolding decimal_magnitude
      by (simp add: None ip_def [symmetric] X_def [symmetric] ex_def [symmetric]
          digits_value_number [OF ip] pow10_powi)
  next
    case (Some f)
    have f: "list_all is_digit f" and ne: "\<not> (ip = [] \<and> f = [])"
      using wf by (simp_all add: well_formed_def Some ip_def)
    have nd: "0x2E # f @ X @ t = [] \<or> \<not> is_digit (hd (0x2E # f @ X @ t))"
      by (simp add: is_digit_def)
    have tw: "takeWhile is_digit (ip @ 0x2E # f @ X @ t) = ip"
      and dw: "dropWhile is_digit (ip @ 0x2E # f @ X @ t) = 0x2E # f @ X @ t"
      using scan_digits [OF ip nd] by simp_all
    have tw2: "takeWhile is_digit (f @ X @ t) = f" and dw2: "dropWhile is_digit (f @ X @ t) = X @ t"
      using scan_digits [OF f Xt] by simp_all
    have inf: "take 8 (ip @ 0x2E # f @ X @ t) \<noteq> lit ''Infinity''"
    proof (cases "ip = []")
      case True
      show ?thesis
        unfolding True append_Nil by (rule not_Infinity) simp
    next
      case False
      then show ?thesis
        by (rule first)
    qed
    have "scan_unsigned (ip @ 0x2E # f @ X @ t) =
        (if ip = [] \<and> f = [] then NaN
         else round64
           ((of_int (digits_value ip) + of_int (digits_value f) / 10 ^ length f) * pow10 ex))"
      using inf by (simp add: scan_unsigned_def Let_def tw dw tw2 dw2 scan)
    then have "scan_unsigned (ip @ 0x2E # f @ X @ t) =
        round64 ((of_int (digits_value ip) + of_int (digits_value f) / 10 ^ length f) * pow10 ex)"
      by (simp only: ne if_False)
    then show ?thesis
      unfolding decimal_magnitude
      by (simp add: Some ip_def [symmetric] X_def [symmetric] ex_def [symmetric]
          digits_value_number [OF ip] digits_value_number [OF f] pow10_powi)
  qed
qed

lemma skip_white_space:
  assumes "list_all is_white_space ws" and "\<not> is_white_space c"
  shows "dropWhile is_white_space (ws @ c # s) = c # s"
  using assms by (simp add: list_all_iff dropWhile_append2)

lemma parse_decimal:
  assumes wf: "well_formed d" and en: "ends_number d t" and ws: "list_all is_white_space ws"
  shows "parse_float_string (ws @ decimal_text d @ t) =
     (if sign d = MinusSign then js_negate (round64 \<bar>decimal_value d\<bar>)
      else round64 \<bar>decimal_value d\<bar>)"
proof -
  define body where "body =
      integer_digits d
      @ (case fraction_digits d of None \<Rightarrow> [] | Some f \<Rightarrow> 0x2E # f)
      @ (case exponent d of None \<Rightarrow> [] | Some (e, s, ds) \<Rightarrow> e # sign_text s @ ds)
      @ t"
  have scan: "scan_unsigned body = round64 \<bar>decimal_value d\<bar>"
    unfolding body_def using wf en by (rule scan_unsigned_decimal)
  have shape: "decimal_text d @ t = sign_text (sign d) @ body"
    by (simp add: decimal_text_def body_def)
  obtain c cs where body: "body = c # cs" and c: "is_digit c \<or> c = 0x2E"
  proof (cases "integer_digits d")
    case Nil
    then obtain f where "fraction_digits d = Some f"
      using wf by (cases "fraction_digits d") (simp_all add: well_formed_def)
    then have "body = 0x2E # f
        @ (case exponent d of None \<Rightarrow> [] | Some (e, s, ds) \<Rightarrow> e # sign_text s @ ds) @ t"
      by (simp add: body_def Nil)
    then show ?thesis
      using that by blast
  next
    case (Cons c cs)
    then have "is_digit c"
      using wf by (simp add: well_formed_def)
    moreover have "body = c # cs
        @ (case fraction_digits d of None \<Rightarrow> [] | Some f \<Rightarrow> 0x2E # f)
        @ (case exponent d of None \<Rightarrow> [] | Some (e, s, ds) \<Rightarrow> e # sign_text s @ ds) @ t"
      by (simp add: body_def Cons)
    ultimately show ?thesis
      using that by blast
  qed
  have c_white: "\<not> is_white_space c"
    using c digit_not_white_space [of c] by (auto simp: is_white_space_def)
  have c_sign: "c \<noteq> 0x2D" "c \<noteq> 0x2B"
    using c digit_not_sign [of c] by auto
  have sign_white: "\<not> is_white_space 0x2D" "\<not> is_white_space 0x2B"
    by (simp_all add: is_white_space_def)
  show ?thesis
  proof (cases "sign d")
    case NoSign
    have "dropWhile is_white_space (ws @ c # cs) = c # cs"
      using ws c_white by (rule skip_white_space)
    then show ?thesis
      using c_sign scan by (simp add: parse_float_string_def shape NoSign sign_text_def body)
  next
    case PlusSign
    have "dropWhile is_white_space (ws @ 0x2B # body) = 0x2B # body"
      using ws sign_white(2) by (rule skip_white_space)
    then show ?thesis
      using scan by (simp add: parse_float_string_def shape PlusSign sign_text_def)
  next
    case MinusSign
    have "dropWhile is_white_space (ws @ 0x2D # body) = 0x2D # body"
      using ws sign_white(1) by (rule skip_white_space)
    then show ?thesis
      using scan by (simp add: parse_float_string_def shape MinusSign sign_text_def)
  qed
qed

lemma parse_decimal_nearest:
  assumes "well_formed d" and "ends_number d t" and "list_all is_white_space ws"
  shows "nearest_number (decimal_value d) (sign d = MinusSign)
     (parse_float_string (ws @ decimal_text d @ t))"
proof -
  have near: "nearest_number \<bar>decimal_value d\<bar> False (round64 \<bar>decimal_value d\<bar>)"
    by (rule round64_nearest) simp
  show ?thesis
  proof (cases "sign d = MinusSign")
    case True
    then have "decimal_value d = - \<bar>decimal_value d\<bar>"
      using decimal_value_sign [of d] by simp
    then have "nearest_number (decimal_value d) True (js_negate (round64 \<bar>decimal_value d\<bar>))"
      using nearest_number_negate [OF near] by simp
    then show ?thesis
      by (simp add: parse_decimal [OF assms] True)
  next
    case False
    then have "decimal_value d = \<bar>decimal_value d\<bar>"
      using decimal_value_sign [of d] by simp
    with near have "nearest_number (decimal_value d) False (round64 \<bar>decimal_value d\<bar>)"
      by simp
    then show ?thesis
      by (simp add: parse_decimal [OF assms] False)
  qed
qed

lemma nearest_number_not_NaN: "nearest_number v s n \<Longrightarrow> n \<noteq> NaN"
  unfolding nearest_number_def by (auto split: if_splits)

section \<open>Properties of the handler\<close>

subsection \<open>What a step returns\<close>

lemma and_then_Inr:
  "and_then m f w = (Inr y, evs, w') \<longleftrightarrow>
     (\<exists>x evs1 w1 evs2. m w = (Inr x, evs1, w1) \<and> f x w1 = (Inr y, evs2, w') \<and> evs = evs1 @ evs2)"
  by (auto simp: and_then_def split: prod.splits sum.splits)

lemma and_then_Inl:
  "and_then m f w = (Inl e, evs, w') \<longleftrightarrow>
     m w = (Inl e, evs, w')
     \<or> (\<exists>x evs1 w1 evs2. m w = (Inr x, evs1, w1) \<and> f x w1 = (Inl e, evs2, w') \<and> evs = evs1 @ evs2)"
  by (auto simp: and_then_def split: prod.splits sum.splits)

lemma try_catch_rethrow: "try_catch m (\<lambda>err. throw err) = m"
  by (rule ext) (auto simp: try_catch_def throw_def split: prod.splits sum.splits)

lemma invoke_Inr:
  "invoke c f w = (Inr x, evs, w') \<longleftrightarrow> f w = (Inr x, w') \<and> evs = [(c, Returned)]"
  by (auto simp: invoke_def outcome_of_def split: prod.splits)

lemma invoke_Inl:
  "invoke c f w = (Inl e, evs, w') \<longleftrightarrow> f w = (Inl e, w') \<and> evs = [(c, Threw e)]"
  by (auto simp: invoke_def outcome_of_def split: prod.splits)

lemma invoke_pure_Inr:
  "invoke_pure c r w = (Inr x, evs, w') \<longleftrightarrow> r = Inr x \<and> evs = [(c, Returned)] \<and> w' = w"
  by (auto simp: invoke_pure_def outcome_of_def)

lemma invoke_pure_Inl:
  "invoke_pure c r w = (Inl e, evs, w') \<longleftrightarrow> r = Inl e \<and> evs = [(c, Threw e)] \<and> w' = w"
  by (auto simp: invoke_pure_def outcome_of_def)

lemma compute_eq: "compute r w = (r', evs, w') \<longleftrightarrow> r = r' \<and> evs = [] \<and> w' = w"
  by (auto simp: compute_def)

lemma return_eq: "return x w = (r, evs, w') \<longleftrightarrow> r = Inr x \<and> evs = [] \<and> w' = w"
  by (auto simp: return_def)

lemma throw_eq: "throw e w = (r, evs, w') \<longleftrightarrow> r = Inl e \<and> evs = [] \<and> w' = w"
  by (auto simp: throw_def)

lemma response_text_Inr:
  "response_text res w = (Inr t, evs, w') \<longleftrightarrow>
     (\<exists>text. res = Some text \<and> t = trim text) \<and> evs = [] \<and> w' = w"
  by (cases res) (auto simp: response_text_def return_def throw_def)

lemma response_text_Inl:
  "response_text res w = (Inl e, evs, w') \<longleftrightarrow> res = None \<and> e = TypeError \<and> evs = [] \<and> w' = w"
  by (cases res) (auto simp: response_text_def return_def throw_def)

lemma lit_append: "lit a @ lit b = lit (a @ b)"
  by (simp add: lit_def)

lemmas run_simps =
  and_then_Inr and_then_Inl try_catch_rethrow invoke_Inr invoke_Inl invoke_pure_Inr
  invoke_pure_Inl compute_eq return_eq throw_eq response_text_Inr response_text_Inl

lemma handler_success:
  assumes "handler env output_bucket bucket key w = (Inr r, evs, w')"
  shows "\<exists>bytes rows prof t j.
      fst (get_object env bucket key w) = Inr bytes
      \<and> (if endsWith key (lit ''.csv'') then parseCsvFromS3 env bytes
          else parseXlsxFromS3 env bytes) = Inr rows
      \<and> buildProfile (max_arguments env) rows = Inr prof
      \<and> evs =
        [(GetObject bucket key, Returned),
         (if endsWith key (lit ''.csv'') then ParseCsv bytes else ParseXlsx bytes, Returned),
         (ChatCreate \<lparr>model = lit ''gpt-4o-mini'',
            content = SummaryPrompt (rowCount prof) (numericCols prof),
            json_object = False\<rparr>, Returned),
         (ChatCreate \<lparr>model = lit ''gpt-4o-mini'', content = JsonSummaryPrompt prof,
            json_object = True\<rparr>, Returned),
         (PutObject output_bucket (lit ''summaries/'' @ baseName key @ lit ''.txt'') t, Returned),
         (PutObject output_bucket (lit ''summaries/'' @ baseName key @ lit ''.json'') j, Returned),
         (PutObject output_bucket (lit ''summaries/'' @ baseName key @ lit ''.csv'')
            (csv_parser_parse env (csvRows prof)), Returned)]"
  using assms
  by (fastforce simp: handler_def run_simps generateAiSummary_def generateAiJsonSummary_def Let_def
      outKey_def lit_append split: if_splits)

lemma txt_json_csv_distinct:
  "lit ''.txt'' \<noteq> lit ''.csv''" "lit ''.json'' \<noteq> lit ''.csv''" "lit ''.txt'' \<noteq> lit ''.json''"
  by (simp_all add: lit_def)

lemma handler_failure:
  assumes "handler env output_bucket bucket key w = (Inl e, evs, w')"
  shows "list_all (\<lambda>ev. snd ev = Returned) (butlast evs)
     \<and> (\<forall>e'. evs \<noteq> [] \<and> snd (last evs) = Threw e' \<longrightarrow> e' = e)
     \<and> length (put_keys evs) \<le> 3
     \<and> put_keys evs =
         take (length (put_keys evs))
           [lit ''summaries/'' @ baseName key @ lit ''.txt'',
            lit ''summaries/'' @ baseName key @ lit ''.json'',
            lit ''summaries/'' @ baseName key @ lit ''.csv'']"
  using assms
  by (auto simp: handler_def run_simps generateAiSummary_def generateAiJsonSummary_def Let_def
      outKey_def lit_append split: if_splits)

lemma handler_own_failure:
  assumes "handler env output_bucket bucket key w = (Inl e, evs, w')"
    and "list_all (\<lambda>ev. snd ev = Returned) evs"
  shows "put_keys evs = [] \<and> length evs \<le> 4"
  using assms
  by (auto simp: handler_def run_simps generateAiSummary_def generateAiJsonSummary_def Let_def
      outKey_def lit_append split: if_splits)

lemma handler_failure_csv:
  assumes "handler env output_bucket bucket key w = (Inl e, evs, w')"
    and "put_body (lit ''summaries/'' @ baseName key @ lit ''.csv'') evs = Some p"
  shows "\<exists>bytes rows prof.
      fst (get_object env bucket key w) = Inr bytes
      \<and> (if endsWith key (lit ''.csv'') then parseCsvFromS3 env bytes
          else parseXlsxFromS3 env bytes) = Inr rows
      \<and> buildProfile (max_arguments env) rows = Inr prof
      \<and> p = csv_parser_parse env (csvRows prof)"
  using assms
  by (auto simp: handler_def run_simps generateAiSummary_def generateAiJsonSummary_def Let_def
      outKey_def lit_append txt_json_csv_distinct split: if_splits)

lemma csv_body:
  assumes "handler env output_bucket bucket key w = (res, evs, w')"
    and "put_body (lit ''summaries/'' @ baseName key @ lit ''.csv'') evs = Some p"
  shows "\<exists>bytes rows prof.
      fst (get_object env bucket key w) = Inr bytes
      \<and> (if endsWith key (lit ''.csv'') then parseCsvFromS3 env bytes
          else parseXlsxFromS3 env bytes) = Inr rows
      \<and> buildProfile (max_arguments env) rows = Inr prof
      \<and> p = csv_parser_parse env (csvRows prof)"
proof (cases res)
  case (Inl e)
  then show ?thesis
    using handler_failure_csv [of env output_bucket bucket key w e evs w' p] assms by simp
next
  case (Inr r)
  with assms(1) have "handler env output_bucket bucket key w = (Inr r, evs, w')"
    by simp
  from handler_success [OF this] assms(2) show ?thesis
    by (auto simp: txt_json_csv_distinct)
qed

subsection \<open>\<^verbatim>\<open>split\<close> and the base name\<close>

lemma split_not_Nil [simp]: "split s c \<noteq> []"
  by (induction s) (auto split: list.splits)

lemma hd_split: "hd (split s c) = takeWhile (\<lambda>x. x \<noteq> c) s"
  by (induction s) (auto split: list.splits)

lemma split_no_sep: "c \<notin> set s \<Longrightarrow> split s c = [s]"
  by (induction s) auto

lemma split_sep_length: "c \<in> set s \<Longrightarrow> 2 \<le> length (split s c)"
proof (induction s)
  case Nil
  then show ?case by simp
next
  case (Cons x s)
  show ?case
  proof (cases "x = c")
    case True
    have "1 \<le> length (split s c)"
      by (cases "split s c") simp_all
    with True show ?thesis by simp
  next
    case False
    with Cons.prems have "c \<in> set s" by simp
    from Cons.IH [OF this] False show ?thesis
      by (auto split: list.splits)
  qed
qed

lemma takeWhile_snoc_sep: "takeWhile (\<lambda>x. x \<noteq> c) (xs @ [c]) = takeWhile (\<lambda>x. x \<noteq> c) xs"
  by (induction xs) simp_all

lemma last_split: "last (split s c) = rev (takeWhile (\<lambda>x. x \<noteq> c) (rev s))"
proof (induction s)
  case Nil
  then show ?case by simp
next
  case (Cons x s)
  show ?case
  proof (cases "x = c")
    case True
    with Cons.IH show ?thesis
      by (simp add: takeWhile_snoc_sep)
  next
    case False
    show ?thesis
    proof (cases "c \<in> set s")
      case True
      then obtain seg seg' segs where sp: "split s c = seg # seg' # segs"
        using split_sep_length [OF True] by (cases "split s c"; cases "tl (split s c)") auto
      have tw: "takeWhile (\<lambda>x. x \<noteq> c) (rev s @ [x]) = takeWhile (\<lambda>x. x \<noteq> c) (rev s)"
        using True by (intro takeWhile_append1 [of c]) auto
      from False Cons.IH sp show ?thesis
        by (simp add: tw)
    next
      case notin: False
      then have tw: "takeWhile (\<lambda>x. x \<noteq> c) (rev s @ [x]) = rev s @ [x]"
        using False by (auto simp: takeWhile_eq_all_conv)
      from False notin show ?thesis
        by (simp add: split_no_sep tw)
    qed
  qed
qed

lemma baseName_eq:
  "baseName key = takeWhile (\<lambda>c. c \<noteq> 0x2E) (rev (takeWhile (\<lambda>c. c \<noteq> 0x2F) (rev key)))"
  by (simp add: baseName_def hd_split last_split)

subsection \<open>Runs in the scripted world\<close>

lemma run_success:
  "handler (scripted 1000 99 [[(lit ''amt'', Str (lit ''10''))], [(lit ''amt'', Str (lit ''x''))]])
     (lit ''out'') (lit ''in'') (lit ''folder/report.2024.xlsx'') 0 =
   (Inr \<lparr>statusCode = 200, message = lit ''Summaries generated successfully''\<rparr>,
    [(GetObject (lit ''in'') (lit ''folder/report.2024.xlsx''), Returned),
     (ParseXlsx [], Returned),
     (ChatCreate
        \<lparr>model = lit ''gpt-4o-mini'',
         content = SummaryPrompt 2
           [(lit ''amt'',
             \<lparr>count = 1, sum_val = Fin 10, avg = Fin 10, min_val = Fin 10, max_val = Fin 10\<rparr>)],
         json_object = False\<rparr>, Returned),
     (ChatCreate
        \<lparr>model = lit ''gpt-4o-mini'',
         content = JsonSummaryPrompt
           \<lparr>rowCount = 2,
            numericCols =
              [(lit ''amt'',
                \<lparr>count = 1, sum_val = Fin 10, avg = Fin 10, min_val = Fin 10,
                 max_val = Fin 10\<rparr>)]\<rparr>,
         json_object = True\<rparr>, Returned),
     (PutObject (lit ''out'') (lit ''summaries/report.txt'') (lit ''1''), Returned),
     (PutObject (lit ''out'') (lit ''summaries/report.json'') (lit ''2''), Returned),
     (PutObject (lit ''out'') (lit ''summaries/report.csv'')
        (lit ''__ROWCOUNT__'' @ [0xA] @ lit ''amt'' @ [0xA]), Returned)],
    6)"
  by code_simp

lemma run_success_later:
  "handler (scripted 1000 99 [[(lit ''amt'', Str (lit ''10''))], [(lit ''amt'', Str (lit ''x''))]])
     (lit ''out'') (lit ''in'') (lit ''folder/report.2024.xlsx'') 3 =
   (Inr \<lparr>statusCode = 200, message = lit ''Summaries generated successfully''\<rparr>,
    [(GetObject (lit ''in'') (lit ''folder/report.2024.xlsx''), Returned),
     (ParseXlsx [], Returned),
     (ChatCreate
        \<lparr>model = lit ''gpt-4o-mini'',
         content = SummaryPrompt 2
           [(lit ''amt'',
             \<lparr>count = 1, sum_val = Fin 10, avg = Fin 10, min_val = Fin 10, max_val = Fin 10\<rparr>)],
         json_object = False\<rparr>, Returned),
     (ChatCreate
        \<lparr>model = lit ''gpt-4o-mini'',
         content = JsonSummaryPrompt
           \<lparr>rowCount = 2,
            numericCols =
              [(lit ''amt'',
                \<lparr>count = 1, sum_val = Fin 10, avg = Fin 10, min_val = Fin 10,
                 max_val = Fin 10\<rparr>)]\<rparr>,
         json_object = True\<rparr>, Returned),
     (PutObject (lit ''out'') (lit ''summaries/report.txt'') (lit ''4''), Returned),
     (PutObject (lit ''out'') (lit ''summaries/report.json'') (lit ''5''), Returned),
     (PutObject (lit ''out'') (lit ''summaries/report.csv'')
        (lit ''__ROWCOUNT__'' @ [0xA] @ lit ''amt'' @ [0xA]), Returned)],
    9)"
  by code_simp

lemma run_put_fails:
  "handler (scripted 1000 4 [[(lit ''amt'', Str (lit ''10''))], [(lit ''amt'', Str (lit ''x''))]])
     (lit ''out'') (lit ''in'') (lit ''folder/report.2024.xlsx'') 0 =
   (Inl (ServiceError (lit ''put'')),
    [(GetObject (lit ''in'') (lit ''folder/report.2024.xlsx''), Returned),
     (ParseXlsx [], Returned),
     (ChatCreate
        \<lparr>model = lit ''gpt-4o-mini'',
         content = SummaryPrompt 2
           [(lit ''amt'',
             \<lparr>count = 1, sum_val = Fin 10, avg = Fin 10, min_val = Fin 10, max_val = Fin 10\<rparr>)],
         json_object = False\<rparr>, Returned),
     (ChatCreate
        \<lparr>model = lit ''gpt-4o-mini'',
         content = JsonSummaryPrompt
           \<lparr>rowCount = 2,
            numericCols =
              [(lit ''amt'',
                \<lparr>count = 1, sum_val = Fin 10, avg = Fin 10, min_val = Fin 10,
                 max_val = Fin 10\<rparr>)]\<rparr>,
         json_object = True\<rparr>, Returned),
     (PutObject (lit ''out'') (lit ''summaries/report.txt'') (lit ''1''), Returned),
     (PutObject (lit ''out'') (lit ''summaries/report.json'') (lit ''2''),
        Threw (ServiceError (lit ''put'')))],
    5)"
  by code_simp

lemma run_no_content:
  "handler
     ((scripted 1000 99 [[(lit ''amt'', Str (lit ''10''))], [(lit ''amt'', Str (lit ''x''))]])
        \<lparr>chat_create := \<lambda>request w. (Inr None, Suc w)\<rparr>)
     (lit ''out'') (lit ''in'') (lit ''folder/report.2024.xlsx'') 0 =
   (Inl TypeError,
    [(GetObject (lit ''in'') (lit ''folder/report.2024.xlsx''), Returned),
     (ParseXlsx [], Returned),
     (ChatCreate
        \<lparr>model = lit ''gpt-4o-mini'',
         content = SummaryPrompt 2
           [(lit ''amt'',
             \<lparr>count = 1, sum_val = Fin 10, avg = Fin 10, min_val = Fin 10, max_val = Fin 10\<rparr>)],
         json_object = False\<rparr>, Returned)],
    2)"
  by code_simp

lemma run_too_many:
  "handler (scripted 2 99
       [[(lit ''amt'', Str (lit ''10''))], [(lit ''amt'', Str (lit ''20''))],
        [(lit ''amt'', Str (lit ''30''))]])
     (lit ''out'') (lit ''in'') (lit ''folder/report.2024.xlsx'') 0 =
   (Inl RangeError,
    [(GetObject (lit ''in'') (lit ''folder/report.2024.xlsx''), Returned),
     (ParseXlsx [], Returned)],
    1)"
  by code_simp

lemma example_baseName: "baseName (lit ''folder/report.2024.xlsx'') = lit ''report''"
  by code_simp

section \<open>Properties of the statistics table\<close>

subsection \<open>Enumeration order\<close>

lemma length_object_entries: "length (object_entries obj) = length obj"
proof -
  have "filter (\<lambda>(k, v). \<not> is_array_index k) obj =
      filter (\<lambda>e. \<not> (case e of (k, v) \<Rightarrow> is_array_index k)) obj"
    by (induction obj) auto
  then show ?thesis
    by (simp add: object_entries_def sum_length_filter_compl)
qed

lemma filter_partition:
  assumes "sorted_wrt (\<lambda>a b. P b \<longrightarrow> P a) xs"
  shows "filter P xs @ filter (\<lambda>x. \<not> P x) xs = xs"
  using assms
proof (induction xs)
  case Nil
  then show ?case by simp
next
  case (Cons x xs)
  show ?case
  proof (cases "P x")
    case True
    with Cons show ?thesis by simp
  next
    case False
    with Cons.prems have "\<forall>y \<in> set xs. \<not> P y"
      by auto
    then have "filter P xs = []" and "filter (\<lambda>x. \<not> P x) xs = xs"
      by (simp_all add: filter_empty_conv filter_id_conv)
    with False show ?thesis by simp
  qed
qed

lemma object_entries_id:
  assumes "sorted_wrt enumerated_before (map fst obj)"
  shows "object_entries obj = obj"
proof -
  let ?P = "\<lambda>e. case e of (k, v) \<Rightarrow> is_array_index k"
  let ?f = "\<lambda>e. case e of (k, v) \<Rightarrow> digits_value k"
  have sw: "sorted_wrt (\<lambda>a b. enumerated_before (fst a) (fst b)) obj"
    using assms by (simp add: sorted_wrt_map)
  have "sorted_wrt (\<lambda>a b. ?P b \<longrightarrow> ?P a) obj"
    by (rule sorted_wrt_mono_rel [OF _ sw]) (auto simp: enumerated_before_def split: if_splits)
  then have part: "filter ?P obj @ filter (\<lambda>e. \<not> ?P e) obj = obj"
    by (rule filter_partition)
  have "sorted_wrt (\<lambda>a b. enumerated_before (fst a) (fst b)) (filter ?P obj)"
    using sw by (rule sorted_wrt_filter)
  then have "sorted_wrt (\<lambda>a b. ?f a \<le> ?f b) (filter ?P obj)"
    by (rule sorted_wrt_mono_rel [rotated]) (auto simp: enumerated_before_def)
  then have "sort_key ?f (filter ?P obj) = filter ?P obj"
    by (intro sort_key_id_if_sorted) (simp add: sorted_map)
  moreover have "filter (\<lambda>(k, v). \<not> is_array_index k) obj = filter (\<lambda>e. \<not> ?P e) obj"
    by (induction obj) auto
  ultimately show ?thesis
    using part by (simp add: object_entries_def)
qed

lemma object_keys_sorted: "sorted_wrt enumerated_before (object_keys obj)"
proof -
  let ?P = "\<lambda>e. case e of (k, v) \<Rightarrow> is_array_index k"
  let ?f = "\<lambda>e. case e of (k, v) \<Rightarrow> digits_value k"
  let ?idx = "sort_key ?f (filter ?P obj)"
  let ?rest = "filter (\<lambda>(k, v). \<not> is_array_index k) obj"
  have "sorted (map ?f ?idx)"
    by (rule sorted_sort_key)
  then have "sorted_wrt (\<lambda>a b. ?f a \<le> ?f b) ?idx"
    by (simp add: sorted_map)
  then have a: "sorted_wrt (\<lambda>a b. enumerated_before (fst a) (fst b)) ?idx"
    by (rule sorted_wrt_mono_rel [rotated]) (auto simp: enumerated_before_def)
  have "sorted_wrt (\<lambda>a b. True) ?rest"
    by (induction obj) auto
  then have b: "sorted_wrt (\<lambda>a b. enumerated_before (fst a) (fst b)) ?rest"
    by (rule sorted_wrt_mono_rel [rotated]) (auto simp: enumerated_before_def)
  have c: "\<forall>x \<in> set ?idx. \<forall>y \<in> set ?rest. enumerated_before (fst x) (fst y)"
    by (auto simp: enumerated_before_def)
  show ?thesis
    using a b c
    by (simp add: object_keys_def object_entries_def sorted_wrt_map sorted_wrt_append)
qed

lemma keys_obj_set:
  "map fst (obj_set obj k v) =
     (if k = lit ''__proto__'' \<or> k \<in> fst ` set obj then map fst obj else map fst obj @ [k])"
proof -
  have "map fst (map (\<lambda>(k', v'). if k' = k then (k', v) else (k', v')) obj) = map fst obj"
    by (induction obj) auto
  then show ?thesis
    by (simp add: obj_set_def)
qed

lemma foldl_store_column_sorted:
  "sorted_wrt enumerated_before (map fst acc @ cols) \<Longrightarrow>
   sorted_wrt enumerated_before (map fst (foldl (store_column rows) acc cols))"
proof (induction cols arbitrary: acc)
  case Nil
  then show ?case by simp
next
  case (Cons c cs)
  have "map fst (store_column rows acc c) = map fst acc
      \<or> map fst (store_column rows acc c) = map fst acc @ [c]"
    by (simp add: store_column_def keys_obj_set)
  then have "sorted_wrt enumerated_before (map fst (store_column rows acc c) @ cs)"
  proof
    assume "map fst (store_column rows acc c) = map fst acc"
    then show ?thesis
      using Cons.prems by (simp add: sorted_wrt_append)
  next
    assume "map fst (store_column rows acc c) = map fst acc @ [c]"
    then show ?thesis
      using Cons.prems by simp
  qed
  from Cons.IH [OF this] show ?case
    by simp
qed

lemma numericCols_sorted:
  assumes "buildProfile limit rows = Inr p"
  shows "sorted_wrt enumerated_before (map fst (numericCols p))"
proof (cases "rows = []")
  case True
  with assms show ?thesis by (auto simp: buildProfile_eq)
next
  case False
  have "sorted_wrt enumerated_before (map fst [] @ object_keys (hd rows))"
    by (simp add: object_keys_sorted)
  from foldl_store_column_sorted [OF this] False assms show ?thesis
    by (auto simp: buildProfile_eq split: if_splits)
qed

lemma numericCols_enumeration:
  "buildProfile limit rows = Inr p \<Longrightarrow> object_entries (numericCols p) = numericCols p"
  by (rule object_entries_id [OF numericCols_sorted])

subsection \<open>Printing and parsing a count\<close>

lemma digit_char:
  assumes "d < 10"
  shows "is_digit (of_nat (48 + d))" and "digit_value (of_nat (48 + d)) = int d"
proof -
  have u: "unat (of_nat (48 + d) :: 16 word) = 48 + d"
    unfolding unat_of_nat using assms by simp
  show "is_digit (of_nat (48 + d))"
    using assms unfolding is_digit_def word_le_nat_alt u by simp
  have "uint (of_nat (48 + d) :: 16 word) = int (48 + d)"
    using u by (simp only: uint_nat)
  then show "digit_value (of_nat (48 + d)) = int d"
    by (simp add: digit_value_def)
qed

lemma digits_of_props:
  "list_all is_digit (digits_of n) \<and> digits_of n \<noteq> [] \<and> digits_value (digits_of n) = int n"
proof (induction n rule: digits_of.induct)
  case (1 n)
  show ?case
  proof (cases "n < 10")
    case True
    then show ?thesis
      using digit_char [of n] by (simp add: digits_of.simps [of n] digits_value_def)
  next
    case False
    have "n mod 10 < 10"
      by simp
    moreover have "10 * int (n div 10) + int (n mod 10) = int n"
      by presburger
    ultimately show ?thesis
      using digit_char [of "n mod 10"] "1.IH" [OF False] False
      by (simp add: digits_of.simps [of n] digits_value_snoc del: of_nat_add)
  qed
qed

lemma parse_integer_to_string: "parse_float_string (integer_to_string n) = number_of_nat n"
proof -
  define d where "d = \<lparr>sign = NoSign, integer_digits = digits_of n, fraction_digits = None,
    exponent = None\<rparr>"
  from digits_of_props [of n] have digs: "list_all is_digit (digits_of n)"
    and ne: "digits_of n \<noteq> []" and val: "digits_value (digits_of n) = int n"
    by simp_all
  have wf: "well_formed d"
    using digs ne by (simp add: well_formed_def d_def)
  have en: "ends_number d []"
    by (simp add: ends_number_def exponent_start_def)
  have "int (digits_number (digits_of n)) = int n"
    using digits_value_number [OF digs] val by simp
  then have "decimal_value d = of_nat n"
    by (simp add: decimal_value_def d_def)
  moreover have "decimal_text d = digits_of n"
    by (simp add: decimal_text_def d_def sign_text_def)
  ultimately show ?thesis
    using parse_decimal [OF wf en, of "[]"]
    by (simp add: integer_to_string_def number_of_nat_def d_def)
qed

lemma number_to_string_nat:
  assumes "n < 10 ^ 21"
  shows "number_to_string (Fin (of_nat n)) = Some (integer_to_string n)"
proof -
  have "(of_nat n :: rat) < of_nat (10 ^ 21)"
    using assms by (simp only: of_nat_less_iff)
  then show ?thesis
    by (simp add: number_to_string_def)
qed

lemma set_object_entries: "set (object_entries obj) = set obj"
  by (auto simp: object_entries_def)

lemma example_profile:
  assumes "2 \<le> limit"
  shows "buildProfile limit
     [[(lit ''amt'', Str (lit ''10''))], [(lit ''amt'', Str (lit ''20''))],
      [(lit ''amt'', Str (lit ''x''))]] =
     Inr \<lparr>rowCount = 3,
      numericCols =
        [(lit ''amt'',
          \<lparr>count = 2, sum_val = Fin 30, avg = Fin 15, min_val = Fin 10, max_val = Fin 20\<rparr>)]\<rparr>"
proof -
  have "buildProfile 2
     [[(lit ''amt'', Str (lit ''10''))], [(lit ''amt'', Str (lit ''20''))],
      [(lit ''amt'', Str (lit ''x''))]] =
     Inr \<lparr>rowCount = 3,
      numericCols =
        [(lit ''amt'',
          \<lparr>count = 2, sum_val = Fin 30, avg = Fin 15, min_val = Fin 10, max_val = Fin 20\<rparr>)]\<rparr>"
    by code_simp
  then show ?thesis
    using assms by (rule buildProfile_mono)
qed

section \<open>The claims\<close>

text \<open>
  C1. The profile of the three rows \<^verbatim>\<open>{amt:"10"}\<close>, \<^verbatim>\<open>{amt:"20"}\<close>, \<^verbatim>\<open>{amt:"x"}\<close> is
  \<^verbatim>\<open>{rowCount:3, numericCols:{amt:{count:2, sum:30, avg:15, min:10, max:20}}}\<close> (in
  every engine that accepts two arguments in a call). In general, for every column in the
  \<open>numericCols\<close> of a profile that \<open>buildProfile\<close> returns: \<open>count\<close> is the number
  of rows whose value parsed to a Number other than NaN; \<open>sum\<close> is the sum of the parsed
  values, added as Numbers from left to right starting at 0, which is their exact
  mathematical sum whenever they are integers whose absolute values add up to at most
  \<open>2^53\<close>; \<open>avg\<close> is \<open>sum / count\<close>; \<open>min\<close> and \<open>max\<close> are parsed values,
  \<open>min\<close> one that no parsed value is less than and \<open>max\<close> one that is less than no
  parsed value.
\<close>

theorem numericCols_statistics:
  "(2 \<le> limit \<longrightarrow>
      buildProfile limit
        [[(lit ''amt'', Str (lit ''10''))], [(lit ''amt'', Str (lit ''20''))],
         [(lit ''amt'', Str (lit ''x''))]] =
        Inr \<lparr>rowCount = 3,
             numericCols =
               [(lit ''amt'',
                 \<lparr>count = 2, sum_val = Fin 30, avg = Fin 15, min_val = Fin 10,
                  max_val = Fin 20\<rparr>)]\<rparr>)
   \<and> (\<forall>rows p col st.
        buildProfile limit rows = Inr p \<and> (col, st) \<in> set (numericCols p) \<longrightarrow>
        count st = card {i. i < length rows \<and> \<not> isNaN (parseFloat (row_get (rows ! i) col))}
        \<and> count st = length (column_nums rows col)
        \<and> sum_val st = foldl js_add (Fin 0) (column_nums rows col)
        \<and> ((\<forall>n \<in> set (column_nums rows col). \<exists>k. n = Fin (of_int k))
             \<and> (\<Sum>n\<leftarrow>column_nums rows col. \<bar>value_of n\<bar>) \<le> 2 ^ 53 \<longrightarrow>
           sum_val st = Fin (\<Sum>n\<leftarrow>column_nums rows col. value_of n))
        \<and> avg st = js_divide (sum_val st) (number_of_nat (count st))
        \<and> min_val st \<in> set (column_nums rows col)
        \<and> (\<forall>n \<in> set (column_nums rows col). \<not> js_less n (min_val st))
        \<and> max_val st \<in> set (column_nums rows col)
        \<and> (\<forall>n \<in> set (column_nums rows col). \<not> js_less (max_val st) n))"
proof (intro conjI allI impI; (elim conjE)?)
  assume "2 \<le> limit"
  then show "buildProfile limit
        [[(lit ''amt'', Str (lit ''10''))], [(lit ''amt'', Str (lit ''20''))],
         [(lit ''amt'', Str (lit ''x''))]] =
        Inr \<lparr>rowCount = 3,
             numericCols =
               [(lit ''amt'',
                 \<lparr>count = 2, sum_val = Fin 30, avg = Fin 15, min_val = Fin 10,
                  max_val = Fin 20\<rparr>)]\<rparr>"
    by (rule example_profile)
next
  fix rows p col st
  assume run: "buildProfile limit rows = Inr p" and mem: "(col, st) \<in> set (numericCols p)"
  let ?nums = "column_nums rows col"
  have st: "st = stat_of rows col" and ne: "?nums \<noteq> []"
    using numericCols_entry [OF run mem] by simp_all
  have nan: "NaN \<notin> set ?nums"
    by (rule column_nums_no_NaN)
  show "count st = length ?nums"
    by (simp add: st stat_of_def)
  then show "count st = card {i. i < length rows \<and> \<not> isNaN (parseFloat (row_get (rows ! i) col))}"
    by (simp add: count_column_nums)
  show "sum_val st = foldl js_add (Fin 0) ?nums"
    by (simp add: st stat_of_def)
  show "avg st = js_divide (sum_val st) (number_of_nat (count st))"
    by (simp add: st stat_of_def)
  show "min_val st \<in> set ?nums"
    using math_min_least(1) [OF nan ne] by (simp add: st stat_of_def)
  show "max_val st \<in> set ?nums"
    using math_max_greatest(1) [OF nan ne] by (simp add: st stat_of_def)
  show "\<forall>n \<in> set ?nums. \<not> js_less n (min_val st)"
    using math_min_least(2) [OF nan ne] by (simp add: st stat_of_def)
  show "\<forall>n \<in> set ?nums. \<not> js_less (max_val st) n"
    using math_max_greatest(2) [OF nan ne] by (simp add: st stat_of_def)
  show "sum_val st = Fin (\<Sum>n\<leftarrow>?nums. value_of n)"
    if "\<forall>n \<in> set ?nums. \<exists>k. n = Fin (of_int k)" and "(\<Sum>n\<leftarrow>?nums. \<bar>value_of n\<bar>) \<le> 2 ^ 53"
    using sum_exact [of ?nums] that by (simp add: st stat_of_def)
qed

theorem numericCols_statistics_witness:
  "(2 :: nat) \<le> 65535
   \<and> buildProfile 65535
        [[(lit ''amt'', Str (lit ''10''))], [(lit ''amt'', Str (lit ''20''))],
         [(lit ''amt'', Str (lit ''x''))]] =
        Inr \<lparr>rowCount = 3,
             numericCols =
               [(lit ''amt'',
                 \<lparr>count = 2, sum_val = Fin 30, avg = Fin 15, min_val = Fin 10,
                  max_val = Fin 20\<rparr>)]\<rparr>
   \<and> column_nums
         [[(lit ''amt'', Str (lit ''10''))], [(lit ''amt'', Str (lit ''20''))],
          [(lit ''amt'', Str (lit ''x''))]] (lit ''amt'') = [Fin 10, Fin 20]
   \<and> (\<exists>k. Fin 10 = Fin (rat_of_int k)) \<and> (\<exists>k. Fin 20 = Fin (rat_of_int k))
   \<and> (\<Sum>n\<leftarrow>[Fin 10, Fin 20]. \<bar>value_of n\<bar>) \<le> 2 ^ 53
   \<and> Fin 30 = Fin (\<Sum>n\<leftarrow>[Fin 10, Fin 20]. value_of n)
   \<and> Fin 15 = js_divide (Fin 30) (number_of_nat 2)
   \<and> \<not> js_less (Fin 20) (Fin 10) \<and> \<not> js_less (Fin 20) (Fin 10)"
proof -
  let ?rows = "[[(lit ''amt'', Str (lit ''10''))], [(lit ''amt'', Str (lit ''20''))],
          [(lit ''amt'', Str (lit ''x''))]]"
  let ?st = "\<lparr>count = 2, sum_val = Fin 30, avg = Fin 15, min_val = Fin 10, max_val = Fin 20\<rparr>"
  let ?p = "\<lparr>rowCount = 3, numericCols = [(lit ''amt'', ?st)]\<rparr>"
  have le: "(2 :: nat) \<le> 65535"
    by simp
  have ex: "buildProfile 65535 ?rows = Inr ?p"
    using numericCols_statistics [of 65535, THEN conjunct1] le by blast
  have nums: "column_nums ?rows (lit ''amt'') = [Fin 10, Fin 20]"
    by code_simp
  have k10: "\<exists>k. Fin 10 = Fin (rat_of_int k)"
    by (rule exI [of _ 10]) simp
  have k20: "\<exists>k. Fin 20 = Fin (rat_of_int k)"
    by (rule exI [of _ 20]) simp
  have mem: "(lit ''amt'', ?st) \<in> set (numericCols ?p)"
    by simp
  from numericCols_statistics [of 65535, THEN conjunct2, rule_format, OF conjI, OF ex mem]
    le ex nums k10 k20
  show ?thesis
    by (simp add: value_of_def)
qed

text \<open>
  C2. The claim: a cell whose text parses to infinity or to NaN is discarded and contributes
  nothing to its column. The code discards NaN only. The column \<^verbatim>\<open>amt\<close> of the rows
  \<^verbatim>\<open>{amt:"Infinity"}\<close>, \<^verbatim>\<open>{amt:"5"}\<close> has count 2, and its sum, avg and max are
  \<^verbatim>\<open>Infinity\<close> (here in an engine that accepts 65535 arguments in a call).
\<close>

theorem infinity_counted_counterexample:
  "parse_float_string (lit ''Infinity'') = PosInf
   \<and> buildProfile 65535
       [[(lit ''amt'', Str (lit ''Infinity''))], [(lit ''amt'', Str (lit ''5''))]] =
       Inr \<lparr>rowCount = 2,
            numericCols =
              [(lit ''amt'',
                \<lparr>count = 2, sum_val = PosInf, avg = PosInf, min_val = Fin 5,
                 max_val = PosInf\<rparr>)]\<rparr>"
proof
  show "parse_float_string (lit ''Infinity'') = PosInf"
    by code_simp
  have "buildProfile 2
       [[(lit ''amt'', Str (lit ''Infinity''))], [(lit ''amt'', Str (lit ''5''))]] =
       Inr \<lparr>rowCount = 2,
            numericCols =
              [(lit ''amt'',
                \<lparr>count = 2, sum_val = PosInf, avg = PosInf, min_val = Fin 5,
                 max_val = PosInf\<rparr>)]\<rparr>"
    by code_simp
  then show "buildProfile 65535
       [[(lit ''amt'', Str (lit ''Infinity''))], [(lit ''amt'', Str (lit ''5''))]] =
       Inr \<lparr>rowCount = 2,
            numericCols =
              [(lit ''amt'',
                \<lparr>count = 2, sum_val = PosInf, avg = PosInf, min_val = Fin 5,
                 max_val = PosInf\<rparr>)]\<rparr>"
    by (rule buildProfile_mono) simp
qed

text \<open>
  C2, as amended. A cell that parses to NaN is discarded: the numbers collected for its
  column, and so the statistics computed from them, are the same as without that row. A cell
  that parses to \<^verbatim>\<open>Infinity\<close> or \<^verbatim>\<open>-Infinity\<close> is kept: it is one of the collected
  numbers, in the position of its row.
\<close>

theorem nan_discarded_infinity_kept:
  "(isNaN (parseFloat (row_get r col)) \<longrightarrow>
      column_nums (rows1 @ r # rows2) col = column_nums (rows1 @ rows2) col
      \<and> profile_column limit (rows1 @ r # rows2) acc col =
          profile_column limit (rows1 @ rows2) acc col)
   \<and> (is_infinite (parseFloat (row_get r col)) \<longrightarrow>
      column_nums (rows1 @ r # rows2) col =
        column_nums rows1 col @ parseFloat (row_get r col) # column_nums rows2 col)"
proof (intro conjI impI)
  assume nan: "isNaN (parseFloat (row_get r col))"
  then show eq: "column_nums (rows1 @ r # rows2) col = column_nums (rows1 @ rows2) col"
    by (simp add: column_nums_append column_nums_Cons)
  then show "profile_column limit (rows1 @ r # rows2) acc col =
      profile_column limit (rows1 @ rows2) acc col"
    by (rule profile_column_cong)
next
  assume "is_infinite (parseFloat (row_get r col))"
  then have "\<not> isNaN (parseFloat (row_get r col))"
    by (auto simp: is_infinite_def isNaN_def)
  then show "column_nums (rows1 @ r # rows2) col =
        column_nums rows1 col @ parseFloat (row_get r col) # column_nums rows2 col"
    by (simp add: column_nums_append column_nums_Cons)
qed

theorem nan_discarded_infinity_kept_witness:
  "isNaN (parseFloat (row_get [(lit ''amt'', Str (lit ''x''))] (lit ''amt'')))
   \<and> column_nums ([[(lit ''amt'', Str (lit ''10''))]] @ [(lit ''amt'', Str (lit ''x''))] # [])
        (lit ''amt'') = [Fin 10]
   \<and> profile_column 65535
        ([[(lit ''amt'', Str (lit ''10''))]] @ [(lit ''amt'', Str (lit ''x''))] # [])
        [] (lit ''amt'') =
      profile_column 65535 [[(lit ''amt'', Str (lit ''10''))]] [] (lit ''amt'')
   \<and> is_infinite (parseFloat (row_get [(lit ''amt'', Str (lit ''-Infinity''))] (lit ''amt'')))
   \<and> column_nums ([[(lit ''amt'', Str (lit ''10''))]] @ [(lit ''amt'', Str (lit ''-Infinity''))] # [])
        (lit ''amt'') = [Fin 10, NegInf]"
proof -
  have nan: "isNaN (parseFloat (row_get [(lit ''amt'', Str (lit ''x''))] (lit ''amt'')))"
    by code_simp
  have inf: "parseFloat (row_get [(lit ''amt'', Str (lit ''-Infinity''))] (lit ''amt'')) = NegInf"
    by code_simp
  have ten: "column_nums [[(lit ''amt'', Str (lit ''10''))]] (lit ''amt'') = [Fin 10]"
    by code_simp
  have nil: "column_nums [] (lit ''amt'') = []"
    by (simp add: column_nums_def)
  show ?thesis
    using nan inf ten nil
      nan_discarded_infinity_kept [of "[(lit ''amt'', Str (lit ''x''))]" "lit ''amt''"
        "[[(lit ''amt'', Str (lit ''10''))]]" "[]" 65535 "[]"]
      nan_discarded_infinity_kept [of "[(lit ''amt'', Str (lit ''-Infinity''))]" "lit ''amt''"
        "[[(lit ''amt'', Str (lit ''10''))]]" "[]" 65535 "[]"]
    by (simp add: is_infinite_def)
qed

text \<open>
  C3. The claim: a key whose extension is neither \<^verbatim>\<open>.csv\<close> nor \<^verbatim>\<open>.xlsx\<close> fails before
  any collaborator is invoked, so no object is fetched. The handler fetches the object first
  and looks at the extension afterwards: for the key \<^verbatim>\<open>report.pdf\<close> the run contains the
  fetch.
\<close>

theorem unsupported_extension_counterexample:
  "\<not> endsWith (lit ''report.pdf'') (lit ''.csv'')
   \<and> \<not> endsWith (lit ''report.pdf'') (lit ''.xlsx'')
   \<and> handler (scripted 1000 99 []) (lit ''out'') (lit ''in'') (lit ''report.pdf'') 0 =
      (Inl (Error (lit ''Unsupported file type'')),
       [(GetObject (lit ''in'') (lit ''report.pdf''), Returned)], 1)"
  by code_simp

text \<open>
  C3, as amended. For every key that ends neither in \<^verbatim>\<open>.csv\<close> nor in \<^verbatim>\<open>.xlsx\<close>, the
  handler makes exactly one call, the fetch of the object. If the fetch fails, its error is
  raised; otherwise the handler raises \<^verbatim>\<open>Error("Unsupported file type")\<close>. No decoder or
  text generation call is made and nothing is written.
\<close>

theorem unsupported_extension:
  assumes "\<not> endsWith key (lit ''.csv'')" and "\<not> endsWith key (lit ''.xlsx'')"
  shows "handler env output_bucket bucket key w =
     (case get_object env bucket key w of
        (Inl e, w') \<Rightarrow> (Inl e, [(GetObject bucket key, Threw e)], w')
      | (Inr bytes, w') \<Rightarrow>
          (Inl (Error (lit ''Unsupported file type'')), [(GetObject bucket key, Returned)], w'))"
  using assms
  by (simp add: handler_def try_catch_def and_then_def invoke_def throw_def outcome_of_def
      split: prod.splits sum.splits)

theorem unsupported_extension_witness:
  "\<not> endsWith (lit ''report.pdf'') (lit ''.csv'')
   \<and> \<not> endsWith (lit ''report.pdf'') (lit ''.xlsx'')
   \<and> get_object (scripted 1000 99 []) (lit ''in'') (lit ''report.pdf'') 0 = (Inr [], 1)
   \<and> handler (scripted 1000 99 []) (lit ''out'') (lit ''in'') (lit ''report.pdf'') 0 =
      (Inl (Error (lit ''Unsupported file type'')),
       [(GetObject (lit ''in'') (lit ''report.pdf''), Returned)], 1)"
proof -
  have a: "\<not> endsWith (lit ''report.pdf'') (lit ''.csv'')"
    and b: "\<not> endsWith (lit ''report.pdf'') (lit ''.xlsx'')"
    by code_simp+
  have g: "get_object (scripted 1000 99 []) (lit ''in'') (lit ''report.pdf'') 0 = (Inr [], 1)"
    by (simp add: scripted_def)
  show ?thesis
    using a b g
      unsupported_extension [OF a b, of "scripted 1000 99 []" "lit ''out''" "lit ''in''" 0]
    by simp
qed

text \<open>
  C4. The table built from a profile has exactly \<open>1 + |numericCols|\<close> rows. The first is
  the sentinel: \<open>Column\<close> is \<^verbatim>\<open>__ROWCOUNT__\<close>, \<open>Count\<close> is \<open>rowCount\<close>, and \<open>Sum\<close>,
  \<open>Avg\<close>, \<open>Min\<close>, \<open>Max\<close> are the empty string. The others are one row per entry of
  \<open>numericCols\<close>; they come in the order the entries were inserted whenever that order is
  the order JavaScript enumerates the keys in, which is the case for every profile that
  \<open>buildProfile\<close> returns. For a row count of at most \<open>2^53\<close> (an array is shorter than
  \<open>2^32\<close>), the \<open>Count\<close> field of the sentinel is the row count itself, prints as its
  decimal digits, and these parse back to the row count.
\<close>

theorem statistics_table:
  "length (csvRows p) = 1 + length (numericCols p)
   \<and> hd (csvRows p) =
       \<lparr>Column = Str (lit ''__ROWCOUNT__''), Count = Num (number_of_nat (rowCount p)),
        Sum_val = Str [], Avg = Str [], Min_val = Str [], Max_val = Str []\<rparr>
   \<and> set (tl (csvRows p)) = stat_row ` set (numericCols p)
   \<and> (sorted_wrt enumerated_before (map fst (numericCols p)) \<longrightarrow>
        tl (csvRows p) = map stat_row (numericCols p))
   \<and> (buildProfile limit rows = Inr q \<longrightarrow> tl (csvRows q) = map stat_row (numericCols q))
   \<and> (rowCount p \<le> 2 ^ 53 \<longrightarrow>
        Count (hd (csvRows p)) = Num (Fin (of_nat (rowCount p)))
        \<and> number_to_string (Fin (of_nat (rowCount p))) = Some (integer_to_string (rowCount p))
        \<and> parse_float_string (integer_to_string (rowCount p)) = Fin (of_nat (rowCount p)))"
proof (intro conjI impI)
  show "length (csvRows p) = 1 + length (numericCols p)"
    by (simp add: csvRows_def length_object_entries)
  show "hd (csvRows p) =
       \<lparr>Column = Str (lit ''__ROWCOUNT__''), Count = Num (number_of_nat (rowCount p)),
        Sum_val = Str [], Avg = Str [], Min_val = Str [], Max_val = Str []\<rparr>"
    by (simp add: csvRows_def rowcount_row_def)
  show "set (tl (csvRows p)) = stat_row ` set (numericCols p)"
    by (simp add: csvRows_def set_object_entries)
  show "tl (csvRows p) = map stat_row (numericCols p)"
    if "sorted_wrt enumerated_before (map fst (numericCols p))"
    using object_entries_id [OF that] by (simp add: csvRows_def)
  show "tl (csvRows q) = map stat_row (numericCols q)" if "buildProfile limit rows = Inr q"
    using numericCols_enumeration [OF that] by (simp add: csvRows_def)
next
  assume le: "rowCount p \<le> 2 ^ 53"
  then have exact: "number_of_nat (rowCount p) = Fin (of_nat (rowCount p))"
    by (rule number_of_nat_exact)
  show "Count (hd (csvRows p)) = Num (Fin (of_nat (rowCount p)))"
    by (simp add: csvRows_def rowcount_row_def exact)
  have "(2 :: nat) ^ 53 < 10 ^ 21"
    by simp
  with le have "rowCount p < 10 ^ 21"
    by (rule le_less_trans)
  then show "number_to_string (Fin (of_nat (rowCount p))) = Some (integer_to_string (rowCount p))"
    by (rule number_to_string_nat)
  show "parse_float_string (integer_to_string (rowCount p)) = Fin (of_nat (rowCount p))"
    by (simp add: parse_integer_to_string exact)
qed

theorem statistics_table_witness:
  "sorted_wrt enumerated_before [lit ''amt'']
   \<and> buildProfile 65535
        [[(lit ''amt'', Str (lit ''10''))], [(lit ''amt'', Str (lit ''20''))],
         [(lit ''amt'', Str (lit ''x''))]] =
       Inr \<lparr>rowCount = 3,
            numericCols =
              [(lit ''amt'',
                \<lparr>count = 2, sum_val = Fin 30, avg = Fin 15, min_val = Fin 10,
                 max_val = Fin 20\<rparr>)]\<rparr>
   \<and> tl (csvRows
        \<lparr>rowCount = 3,
         numericCols =
           [(lit ''amt'',
             \<lparr>count = 2, sum_val = Fin 30, avg = Fin 15, min_val = Fin 10,
              max_val = Fin 20\<rparr>)]\<rparr>) =
       [\<lparr>Column = Str (lit ''amt''), Count = Num (number_of_nat 2), Sum_val = Num (Fin 30),
         Avg = Num (Fin 15), Min_val = Num (Fin 10), Max_val = Num (Fin 20)\<rparr>]
   \<and> (3 :: nat) \<le> 2 ^ 53
   \<and> Count (hd (csvRows
        \<lparr>rowCount = 3,
         numericCols =
           [(lit ''amt'',
             \<lparr>count = 2, sum_val = Fin 30, avg = Fin 15, min_val = Fin 10,
              max_val = Fin 20\<rparr>)]\<rparr>)) = Num (Fin 3)
   \<and> number_to_string (Fin 3) = Some (integer_to_string 3)
   \<and> integer_to_string 3 = lit ''3''
   \<and> parse_float_string (integer_to_string 3) = Fin 3"
proof -
  let ?rows = "[[(lit ''amt'', Str (lit ''10''))], [(lit ''amt'', Str (lit ''20''))],
         [(lit ''amt'', Str (lit ''x''))]]"
  let ?p = "\<lparr>rowCount = 3,
         numericCols =
           [(lit ''amt'',
             \<lparr>count = 2, sum_val = Fin 30, avg = Fin 15, min_val = Fin 10,
              max_val = Fin 20\<rparr>)]\<rparr>"
  note T = statistics_table [of ?p 65535 ?rows ?p]
  have its: "integer_to_string 3 = lit ''3''"
    by code_simp
  have ord: "sorted_wrt enumerated_before [lit ''amt'']"
    by simp
  have run: "buildProfile 65535 ?rows = Inr ?p"
    by (rule example_profile) simp
  have le: "rowCount ?p \<le> 2 ^ 53"
    by simp
  have a: "tl (csvRows ?p) = map stat_row (numericCols ?p)"
    using T run by blast
  have b: "Count (hd (csvRows ?p)) = Num (Fin (of_nat (rowCount ?p)))"
    and c: "number_to_string (Fin (of_nat (rowCount ?p))) =
        Some (integer_to_string (rowCount ?p))"
    and d: "parse_float_string (integer_to_string (rowCount ?p)) =
        Fin (of_nat (rowCount ?p))"
    using T le by blast+
  show ?thesis
    using ord run its a b c d by (simp add: stat_row_def)
qed

text \<open>
  C5. Every profile that \<open>buildProfile\<close> returns satisfies the invariant of a dataset
  profile: every column in \<open>numericCols\<close> has a count of at least 1, and a profile with
  \<open>rowCount = 0\<close> has no numeric columns; the empty sequence gives exactly the empty
  profile.
\<close>

theorem buildProfile_invariant:
  "(buildProfile limit rows = Inr p \<longrightarrow>
      (\<forall>(col, st) \<in> set (numericCols p). 1 \<le> count st)
      \<and> (rowCount p = 0 \<longrightarrow> numericCols p = []))
   \<and> buildProfile limit [] = Inr \<lparr>rowCount = 0, numericCols = []\<rparr>"
proof (intro conjI impI)
  assume run: "buildProfile limit rows = Inr p"
  have "1 \<le> count st" if "(col, st) \<in> set (numericCols p)" for col st
  proof -
    from numericCols_entry [OF run that] have "count st = length (column_nums rows col)"
      and "column_nums rows col \<noteq> []"
      by (simp_all add: stat_of_def)
    then show ?thesis by (cases "column_nums rows col") simp_all
  qed
  then show "\<forall>(col, st) \<in> set (numericCols p). 1 \<le> count st"
    by auto
  show "numericCols p = []" if "rowCount p = 0"
    using run that by (auto simp: buildProfile_eq split: if_splits)
next
  show "buildProfile limit [] = Inr \<lparr>rowCount = 0, numericCols = []\<rparr>"
    by (simp add: buildProfile_eq)
qed

theorem buildProfile_invariant_witness:
  "buildProfile 65535 [[(lit ''amt'', Str (lit ''10''))], [(lit ''amt'', Str (lit ''x''))]] =
     Inr \<lparr>rowCount = 2,
          numericCols =
            [(lit ''amt'',
              \<lparr>count = 1, sum_val = Fin 10, avg = Fin 10, min_val = Fin 10,
               max_val = Fin 10\<rparr>)]\<rparr>
   \<and> 1 \<le> count \<lparr>count = 1, sum_val = Fin 10, avg = Fin 10, min_val = Fin 10, max_val = Fin 10\<rparr>
   \<and> buildProfile 65535 [] = Inr \<lparr>rowCount = 0, numericCols = []\<rparr>
   \<and> rowCount \<lparr>rowCount = 0, numericCols = []\<rparr> = 0
   \<and> numericCols \<lparr>rowCount = 0, numericCols = ([] :: column_stat object)\<rparr> = []"
proof -
  have "buildProfile 1 [[(lit ''amt'', Str (lit ''10''))], [(lit ''amt'', Str (lit ''x''))]] =
      Inr \<lparr>rowCount = 2,
       numericCols =
         [(lit ''amt'',
           \<lparr>count = 1, sum_val = Fin 10, avg = Fin 10, min_val = Fin 10, max_val = Fin 10\<rparr>)]\<rparr>"
    by code_simp
  then have run: "buildProfile 65535
      [[(lit ''amt'', Str (lit ''10''))], [(lit ''amt'', Str (lit ''x''))]] =
      Inr \<lparr>rowCount = 2,
       numericCols =
         [(lit ''amt'',
           \<lparr>count = 1, sum_val = Fin 10, avg = Fin 10, min_val = Fin 10, max_val = Fin 10\<rparr>)]\<rparr>"
    by (rule buildProfile_mono) simp
  have empty: "buildProfile 65535 [] = Inr \<lparr>rowCount = 0, numericCols = []\<rparr>"
    using buildProfile_invariant [of 65535] by blast
  show ?thesis
    using run empty
      buildProfile_invariant
        [of 65535 "[[(lit ''amt'', Str (lit ''10''))], [(lit ''amt'', Str (lit ''x''))]]"
          "\<lparr>rowCount = 2,
            numericCols =
              [(lit ''amt'',
                \<lparr>count = 1, sum_val = Fin 10, avg = Fin 10, min_val = Fin 10,
                 max_val = Fin 10\<rparr>)]\<rparr>"]
      buildProfile_invariant [of 65535 "[]" "\<lparr>rowCount = 0, numericCols = []\<rparr>"]
    by simp
qed



text \<open>
  C7. The base name of a key is its part after the last \<^verbatim>\<open>/\<close>, cut before the first
  \<^verbatim>\<open>.\<close>. The keys the handler writes are, in this order, \<^verbatim>\<open>summaries/<baseName>.txt\<close>,
  \<^verbatim>\<open>summaries/<baseName>.json\<close> and \<^verbatim>\<open>summaries/<baseName>.csv\<close>: all three when it
  succeeds, the first ones when it fails. The key \<^verbatim>\<open>folder/report.2024.xlsx\<close> has base name
  \<^verbatim>\<open>report\<close>.
\<close>

theorem output_keys:
  "baseName key = takeWhile (\<lambda>c. c \<noteq> 0x2E) (rev (takeWhile (\<lambda>c. c \<noteq> 0x2F) (rev key)))
   \<and> (handler env output_bucket bucket key w = (res, evs, w') \<longrightarrow>
        length (put_keys evs) \<le> 3
        \<and> put_keys evs =
            take (length (put_keys evs))
              [lit ''summaries/'' @ baseName key @ lit ''.txt'',
               lit ''summaries/'' @ baseName key @ lit ''.json'',
               lit ''summaries/'' @ baseName key @ lit ''.csv'']
        \<and> (\<forall>r. res = Inr r \<longrightarrow> length (put_keys evs) = 3))
   \<and> baseName (lit ''folder/report.2024.xlsx'') = lit ''report''"
proof (intro conjI impI)
  show "baseName key = takeWhile (\<lambda>c. c \<noteq> 0x2E) (rev (takeWhile (\<lambda>c. c \<noteq> 0x2F) (rev key)))"
    by (rule baseName_eq)
  show "baseName (lit ''folder/report.2024.xlsx'') = lit ''report''"
    by code_simp
next
  assume run: "handler env output_bucket bucket key w = (res, evs, w')"
  let ?keys = "[lit ''summaries/'' @ baseName key @ lit ''.txt'',
               lit ''summaries/'' @ baseName key @ lit ''.json'',
               lit ''summaries/'' @ baseName key @ lit ''.csv'']"
  have "length (put_keys evs) \<le> 3 \<and> put_keys evs = take (length (put_keys evs)) ?keys
      \<and> (\<forall>r. res = Inr r \<longrightarrow> length (put_keys evs) = 3)"
  proof (cases res)
    case (Inl e)
    then show ?thesis
      using handler_failure [of env output_bucket bucket key w e evs w'] run by simp
  next
    case (Inr r)
    with run have "handler env output_bucket bucket key w = (Inr r, evs, w')"
      by simp
    from handler_success [OF this] show ?thesis
      by auto
  qed
  then show "length (put_keys evs) \<le> 3"
    and "put_keys evs = take (length (put_keys evs)) ?keys"
    and "\<forall>r. res = Inr r \<longrightarrow> length (put_keys evs) = 3"
    by blast+
qed

theorem output_keys_witness:
  "handler (scripted 1000 99 [[(lit ''amt'', Str (lit ''10''))], [(lit ''amt'', Str (lit ''x''))]])
     (lit ''out'') (lit ''in'') (lit ''folder/report.2024.xlsx'') 0 =
   (Inr \<lparr>statusCode = 200, message = lit ''Summaries generated successfully''\<rparr>,
    [(GetObject (lit ''in'') (lit ''folder/report.2024.xlsx''), Returned),
     (ParseXlsx [], Returned),
     (ChatCreate
        \<lparr>model = lit ''gpt-4o-mini'',
         content = SummaryPrompt 2
           [(lit ''amt'',
             \<lparr>count = 1, sum_val = Fin 10, avg = Fin 10, min_val = Fin 10, max_val = Fin 10\<rparr>)],
         json_object = False\<rparr>, Returned),
     (ChatCreate
        \<lparr>model = lit ''gpt-4o-mini'',
         content = JsonSummaryPrompt
           \<lparr>rowCount = 2,
            numericCols =
              [(lit ''amt'',
                \<lparr>count = 1, sum_val = Fin 10, avg = Fin 10, min_val = Fin 10,
                 max_val = Fin 10\<rparr>)]\<rparr>,
         json_object = True\<rparr>, Returned),
     (PutObject (lit ''out'') (lit ''summaries/report.txt'') (lit ''1''), Returned),
     (PutObject (lit ''out'') (lit ''summaries/report.json'') (lit ''2''), Returned),
     (PutObject (lit ''out'') (lit ''summaries/report.csv'')
        (lit ''__ROWCOUNT__'' @ [0xA] @ lit ''amt'' @ [0xA]), Returned)],
    6)
   \<and> [lit ''summaries/report.txt'', lit ''summaries/report.json'', lit ''summaries/report.csv''] =
       take 3
         [lit ''summaries/'' @ baseName (lit ''folder/report.2024.xlsx'') @ lit ''.txt'',
          lit ''summaries/'' @ baseName (lit ''folder/report.2024.xlsx'') @ lit ''.json'',
          lit ''summaries/'' @ baseName (lit ''folder/report.2024.xlsx'') @ lit ''.csv'']"
  using output_keys [THEN conjunct2, THEN conjunct1, rule_format, OF run_success] run_success
  by simp

text \<open>
  C8. No exception is caught and recovered: the only \<^verbatim>\<open>catch\<close> raises what it caught.
  The run of the handler is given step by step. The fetch, the decoder, \<open>buildProfile\<close>,
  the two generation calls, the reading of each answer's content (a \<^verbatim>\<open>TypeError\<close> when
  the answer has none) and the three writes come in this order; the first of them that fails
  ends the run: its exception is the result, the calls made are the ones up to that step and
  no other, and the world is the one that step left. Only when none fails does the handler
  return, after the three writes. Read off a run: only the last call can have failed, and its
  exception is then the result; the handler returns exactly when every call has returned and
  three objects have been written; and when it fails although every call has returned (the
  failure is one of the handler's own steps), at most four calls have been made and nothing
  has been written.
\<close>

theorem failures_abort_and_propagate:
  "handler env output_bucket bucket key w =
     (case get_object env bucket key w of
        (Inl e, w1) \<Rightarrow> (Inl e, [(GetObject bucket key, Threw e)], w1)
      | (Inr bytes, w1) \<Rightarrow>
          let fetched = [(GetObject bucket key, Returned)] in
          if \<not> endsWith key (lit ''.csv'') \<and> \<not> endsWith key (lit ''.xlsx'') then
            (Inl (Error (lit ''Unsupported file type'')), fetched, w1)
          else
            let decode = (if endsWith key (lit ''.csv'') then ParseCsv bytes else ParseXlsx bytes)
            in
            (case (if endsWith key (lit ''.csv'') then parseCsvFromS3 env bytes
                   else parseXlsxFromS3 env bytes) of
               Inl e \<Rightarrow> (Inl e, fetched @ [(decode, Threw e)], w1)
             | Inr rows \<Rightarrow>
                 let decoded = fetched @ [(decode, Returned)] in
                 (case buildProfile (max_arguments env) rows of
                    Inl e \<Rightarrow> (Inl e, decoded, w1)
                  | Inr profile \<Rightarrow>
                      let ask = ChatCreate
                            \<lparr>model = lit ''gpt-4o-mini'',
                             content = SummaryPrompt (rowCount profile) (numericCols profile),
                             json_object = False\<rparr>;
                          ask_json = ChatCreate
                            \<lparr>model = lit ''gpt-4o-mini'', content = JsonSummaryPrompt profile,
                             json_object = True\<rparr>
                      in
                      (case chat_create env
                              \<lparr>model = lit ''gpt-4o-mini'',
                               content = SummaryPrompt (rowCount profile) (numericCols profile),
                               json_object = False\<rparr> w1 of
                         (Inl e, w2) \<Rightarrow> (Inl e, decoded @ [(ask, Threw e)], w2)
                       | (Inr None, w2) \<Rightarrow> (Inl TypeError, decoded @ [(ask, Returned)], w2)
                       | (Inr (Some text), w2) \<Rightarrow>
                           let asked = decoded @ [(ask, Returned)] in
                           (case chat_create env
                                   \<lparr>model = lit ''gpt-4o-mini'',
                                    content = JsonSummaryPrompt profile,
                                    json_object = True\<rparr> w2 of
                              (Inl e, w3) \<Rightarrow> (Inl e, asked @ [(ask_json, Threw e)], w3)
                            | (Inr None, w3) \<Rightarrow>
                                (Inl TypeError, asked @ [(ask_json, Returned)], w3)
                            | (Inr (Some json), w3) \<Rightarrow>
                                let summarised = asked @ [(ask_json, Returned)];
                                    put_txt = PutObject output_bucket
                                      (lit ''summaries/'' @ baseName key @ lit ''.txt'') (trim text);
                                    put_json = PutObject output_bucket
                                      (lit ''summaries/'' @ baseName key @ lit ''.json'') (trim json);
                                    put_csv = PutObject output_bucket
                                      (lit ''summaries/'' @ baseName key @ lit ''.csv'')
                                      (csv_parser_parse env (csvRows profile))
                                in
                                (case put_object env output_bucket
                                        (lit ''summaries/'' @ baseName key @ lit ''.txt'')
                                        (trim text) w3 of
                                   (Inl e, w4) \<Rightarrow> (Inl e, summarised @ [(put_txt, Threw e)], w4)
                                 | (Inr u, w4) \<Rightarrow>
                                     (case put_object env output_bucket
                                             (lit ''summaries/'' @ baseName key @ lit ''.json'')
                                             (trim json) w4 of
                                        (Inl e, w5) \<Rightarrow>
                                          (Inl e,
                                           summarised @ [(put_txt, Returned), (put_json, Threw e)],
                                           w5)
                                      | (Inr u, w5) \<Rightarrow>
                                          (case put_object env output_bucket
                                                  (lit ''summaries/'' @ baseName key @ lit ''.csv'')
                                                  (csv_parser_parse env (csvRows profile)) w5 of
                                             (Inl e, w6) \<Rightarrow>
                                               (Inl e,
                                                summarised @
                                                [(put_txt, Returned), (put_json, Returned),
                                                 (put_csv, Threw e)],
                                                w6)
                                           | (Inr u, w6) \<Rightarrow>
                                               (Inr \<lparr>statusCode = 200,
                                                     message =
                                                       lit ''Summaries generated successfully''\<rparr>,
                                                summarised @
                                                [(put_txt, Returned), (put_json, Returned),
                                                 (put_csv, Returned)],
                                                w6)))))))))
   \<and> (\<forall>res evs w'. handler env output_bucket bucket key w = (res, evs, w') \<longrightarrow>
        list_all (\<lambda>ev. snd ev = Returned) (butlast evs)
        \<and> (\<forall>e. evs \<noteq> [] \<and> snd (last evs) = Threw e \<longrightarrow> res = Inl e)
        \<and> ((\<exists>r. res = Inr r) \<longleftrightarrow>
             list_all (\<lambda>ev. snd ev = Returned) evs \<and> length (put_keys evs) = 3)
        \<and> (\<forall>e. res = Inl e \<and> list_all (\<lambda>ev. snd ev = Returned) evs \<longrightarrow>
             put_keys evs = [] \<and> length evs \<le> 4))"
  (is "?steps \<and> ?runs")
proof
  show ?steps
  proof -
    note D = handler_def try_catch_rethrow and_then_def invoke_def invoke_pure_def compute_def
      throw_def return_def outcome_of_def generateAiSummary_def generateAiJsonSummary_def
      response_text_def Let_def outKey_def lit_append
    obtain r1 w1 where fetch: "get_object env bucket key w = (r1, w1)"
      by (cases "get_object env bucket key w")
    show ?thesis
    proof (cases r1)
      case (Inl e)
      with fetch show ?thesis
        by (simp add: D)
    next
      case (Inr bytes)
      note fetch = fetch [unfolded Inr]
      show ?thesis
      proof (cases "if endsWith key (lit ''.csv'') then parseCsvFromS3 env bytes
          else parseXlsxFromS3 env bytes")
        case (Inl e)
        with fetch show ?thesis
          by (simp add: D split: if_splits)
      next
        case rows: (Inr rows)
        show ?thesis
        proof (cases "buildProfile (max_arguments env) rows")
          case (Inl e)
          with fetch rows show ?thesis
            by (simp add: D split: if_splits)
        next
          case prof: (Inr profile)
          obtain r2 w2 where ask: "chat_create env
                \<lparr>model = lit ''gpt-4o-mini'',
                 content = SummaryPrompt (rowCount profile) (numericCols profile),
                 json_object = False\<rparr> w1 = (r2, w2)"
            by (cases "chat_create env
                \<lparr>model = lit ''gpt-4o-mini'',
                 content = SummaryPrompt (rowCount profile) (numericCols profile),
                 json_object = False\<rparr> w1")
          show ?thesis
          proof (cases r2)
            case (Inl e)
            with fetch rows prof ask show ?thesis
              by (simp add: D split: if_splits)
          next
            case (Inr answer)
            note ask = ask [unfolded Inr]
            show ?thesis
            proof (cases answer)
              case None
              with fetch rows prof ask show ?thesis
                by (simp add: D split: if_splits)
            next
              case (Some answer_text)
              note ask = ask [unfolded Some]
              obtain r3 w3 where ask_json: "chat_create env
                    \<lparr>model = lit ''gpt-4o-mini'', content = JsonSummaryPrompt profile,
                     json_object = True\<rparr> w2 = (r3, w3)"
                by (cases "chat_create env
                    \<lparr>model = lit ''gpt-4o-mini'', content = JsonSummaryPrompt profile,
                     json_object = True\<rparr> w2")
              show ?thesis
              proof (cases r3)
                case (Inl e)
                with fetch rows prof ask ask_json show ?thesis
                  by (simp add: D split: if_splits)
              next
                case (Inr answer')
                note ask_json = ask_json [unfolded Inr]
                show ?thesis
                proof (cases answer')
                  case None
                  with fetch rows prof ask ask_json show ?thesis
                    by (simp add: D split: if_splits)
                next
                  case (Some json)
                  note ask_json = ask_json [unfolded Some]
                  obtain r4 w4 where put_txt: "put_object env output_bucket
                      (lit ''summaries/'' @ baseName key @ lit ''.txt'') (trim answer_text) w3 = (r4, w4)"
                    by (cases "put_object env output_bucket
                      (lit ''summaries/'' @ baseName key @ lit ''.txt'') (trim answer_text) w3")
                  show ?thesis
                  proof (cases r4)
                    case (Inl e)
                    with fetch rows prof ask ask_json put_txt show ?thesis
                      by (simp add: D split: if_splits)
                  next
                    case (Inr u4)
                    note put_txt = put_txt [unfolded Inr]
                    obtain r5 w5 where put_json: "put_object env output_bucket
                        (lit ''summaries/'' @ baseName key @ lit ''.json'') (trim json) w4 = (r5, w5)"
                      by (cases "put_object env output_bucket
                        (lit ''summaries/'' @ baseName key @ lit ''.json'') (trim json) w4")
                    show ?thesis
                    proof (cases r5)
                      case (Inl e)
                      with fetch rows prof ask ask_json put_txt put_json show ?thesis
                        by (simp add: D split: if_splits)
                    next
                      case (Inr u5)
                      note put_json = put_json [unfolded Inr]
                      obtain r6 w6 where put_csv: "put_object env output_bucket
                          (lit ''summaries/'' @ baseName key @ lit ''.csv'')
                          (csv_parser_parse env (csvRows profile)) w5 = (r6, w6)"
                        by (cases "put_object env output_bucket
                          (lit ''summaries/'' @ baseName key @ lit ''.csv'')
                          (csv_parser_parse env (csvRows profile)) w5")
                      show ?thesis
                        using fetch rows prof ask ask_json put_txt put_json put_csv
                        by (cases r6) (simp_all add: D split: if_splits)
                    qed
                  qed
                qed
              qed
            qed
          qed
        qed
      qed
    qed
  qed
  show ?runs
  proof (intro allI impI)
    fix res evs w'
    assume run: "handler env output_bucket bucket key w = (res, evs, w')"
    show "list_all (\<lambda>ev. snd ev = Returned) (butlast evs)
        \<and> (\<forall>e. evs \<noteq> [] \<and> snd (last evs) = Threw e \<longrightarrow> res = Inl e)
        \<and> ((\<exists>r. res = Inr r) \<longleftrightarrow>
             list_all (\<lambda>ev. snd ev = Returned) evs \<and> length (put_keys evs) = 3)
        \<and> (\<forall>e. res = Inl e \<and> list_all (\<lambda>ev. snd ev = Returned) evs \<longrightarrow>
             put_keys evs = [] \<and> length evs \<le> 4)"
    proof (cases res)
      case (Inl e)
      with run have fail: "handler env output_bucket bucket key w = (Inl e, evs, w')"
        by simp
      have own: "put_keys evs = [] \<and> length evs \<le> 4"
        if "list_all (\<lambda>ev. snd ev = Returned) evs"
        using handler_own_failure [OF fail that] .
      from handler_failure [OF fail] own Inl show ?thesis
        by auto
    next
      case (Inr r)
      with run have "handler env output_bucket bucket key w = (Inr r, evs, w')"
        by simp
      from handler_success [OF this] obtain bytes prof t j where "evs =
        [(GetObject bucket key, Returned),
         (if endsWith key (lit ''.csv'') then ParseCsv bytes else ParseXlsx bytes, Returned),
         (ChatCreate \<lparr>model = lit ''gpt-4o-mini'',
            content = SummaryPrompt (rowCount prof) (numericCols prof),
            json_object = False\<rparr>, Returned),
         (ChatCreate \<lparr>model = lit ''gpt-4o-mini'', content = JsonSummaryPrompt prof,
            json_object = True\<rparr>, Returned),
         (PutObject output_bucket (lit ''summaries/'' @ baseName key @ lit ''.txt'') t, Returned),
         (PutObject output_bucket (lit ''summaries/'' @ baseName key @ lit ''.json'') j, Returned),
         (PutObject output_bucket (lit ''summaries/'' @ baseName key @ lit ''.csv'')
            (csv_parser_parse env (csvRows prof)), Returned)]"
        by blast
      then show ?thesis
        using Inr by simp
    qed
  qed
qed

theorem failures_abort_and_propagate_witness:
  "handler (scripted 1000 4 [[(lit ''amt'', Str (lit ''10''))], [(lit ''amt'', Str (lit ''x''))]])
     (lit ''out'') (lit ''in'') (lit ''folder/report.2024.xlsx'') 0 =
   (Inl (ServiceError (lit ''put'')),
    [(GetObject (lit ''in'') (lit ''folder/report.2024.xlsx''), Returned),
     (ParseXlsx [], Returned),
     (ChatCreate
        \<lparr>model = lit ''gpt-4o-mini'',
         content = SummaryPrompt 2
           [(lit ''amt'',
             \<lparr>count = 1, sum_val = Fin 10, avg = Fin 10, min_val = Fin 10, max_val = Fin 10\<rparr>)],
         json_object = False\<rparr>, Returned),
     (ChatCreate
        \<lparr>model = lit ''gpt-4o-mini'',
         content = JsonSummaryPrompt
           \<lparr>rowCount = 2,
            numericCols =
              [(lit ''amt'',
                \<lparr>count = 1, sum_val = Fin 10, avg = Fin 10, min_val = Fin 10,
                 max_val = Fin 10\<rparr>)]\<rparr>,
         json_object = True\<rparr>, Returned),
     (PutObject (lit ''out'') (lit ''summaries/report.txt'') (lit ''1''), Returned),
     (PutObject (lit ''out'') (lit ''summaries/report.json'') (lit ''2''),
        Threw (ServiceError (lit ''put'')))],
    5)
   \<and> handler
       ((scripted 1000 99 [[(lit ''amt'', Str (lit ''10''))], [(lit ''amt'', Str (lit ''x''))]])
          \<lparr>chat_create := \<lambda>request w. (Inr None, Suc w)\<rparr>)
       (lit ''out'') (lit ''in'') (lit ''folder/report.2024.xlsx'') 0 =
     (Inl TypeError,
      [(GetObject (lit ''in'') (lit ''folder/report.2024.xlsx''), Returned),
       (ParseXlsx [], Returned),
       (ChatCreate
          \<lparr>model = lit ''gpt-4o-mini'',
           content = SummaryPrompt 2
             [(lit ''amt'',
               \<lparr>count = 1, sum_val = Fin 10, avg = Fin 10, min_val = Fin 10,
                max_val = Fin 10\<rparr>)],
           json_object = False\<rparr>, Returned)],
      2)
   \<and> handler (scripted 2 99
       [[(lit ''amt'', Str (lit ''10''))], [(lit ''amt'', Str (lit ''20''))],
        [(lit ''amt'', Str (lit ''30''))]])
       (lit ''out'') (lit ''in'') (lit ''folder/report.2024.xlsx'') 0 =
     (Inl RangeError,
      [(GetObject (lit ''in'') (lit ''folder/report.2024.xlsx''), Returned),
       (ParseXlsx [], Returned)],
      1)
   \<and> fst (handler
         (scripted 1000 99 [[(lit ''amt'', Str (lit ''10''))], [(lit ''amt'', Str (lit ''x''))]])
         (lit ''out'') (lit ''in'') (lit ''folder/report.2024.xlsx'') 0) =
     Inr \<lparr>statusCode = 200, message = lit ''Summaries generated successfully''\<rparr>
   \<and> list_all (\<lambda>ev. snd ev = Returned)
        (fst (snd (handler
          (scripted 1000 99 [[(lit ''amt'', Str (lit ''10''))], [(lit ''amt'', Str (lit ''x''))]])
          (lit ''out'') (lit ''in'') (lit ''folder/report.2024.xlsx'') 0)))
   \<and> length (put_keys (fst (snd (handler
          (scripted 1000 99 [[(lit ''amt'', Str (lit ''10''))], [(lit ''amt'', Str (lit ''x''))]])
          (lit ''out'') (lit ''in'') (lit ''folder/report.2024.xlsx'') 0)))) = 3"
  using failures_abort_and_propagate [THEN conjunct2, rule_format, OF run_put_fails]
    failures_abort_and_propagate [THEN conjunct2, rule_format, OF run_no_content]
    failures_abort_and_propagate [THEN conjunct2, rule_format, OF run_too_many]
    failures_abort_and_propagate [THEN conjunct2, rule_format, OF run_success]
  by (simp add: run_put_fails run_no_content run_too_many run_success)

text \<open>
  C9. Two runs of the handler on the same key, in worlds that return the same object for it,
  write the same body under the \<^verbatim>\<open>.csv\<close> key, whatever the text generation service and
  the store answer in each: the body is the CSV writer's output for the profile of the
  decoded rows.
\<close>

theorem csv_output_deterministic:
  assumes "handler env output_bucket bucket key w1 = (res1, evs1, w1')"
    and "handler env output_bucket bucket key w2 = (res2, evs2, w2')"
    and "fst (get_object env bucket key w1) = fst (get_object env bucket key w2)"
    and "put_body (lit ''summaries/'' @ baseName key @ lit ''.csv'') evs1 = Some p1"
    and "put_body (lit ''summaries/'' @ baseName key @ lit ''.csv'') evs2 = Some p2"
  shows "p1 = p2"
proof -
  from csv_body [OF assms(1) assms(4)] obtain bytes1 rows1 prof1 where
    b1: "fst (get_object env bucket key w1) = Inr bytes1"
    and r1: "(if endsWith key (lit ''.csv'') then parseCsvFromS3 env bytes1
          else parseXlsxFromS3 env bytes1) = Inr rows1"
    and q1: "buildProfile (max_arguments env) rows1 = Inr prof1"
    and p1: "p1 = csv_parser_parse env (csvRows prof1)"
    by blast
  from csv_body [OF assms(2) assms(5)] obtain bytes2 rows2 prof2 where
    b2: "fst (get_object env bucket key w2) = Inr bytes2"
    and r2: "(if endsWith key (lit ''.csv'') then parseCsvFromS3 env bytes2
          else parseXlsxFromS3 env bytes2) = Inr rows2"
    and q2: "buildProfile (max_arguments env) rows2 = Inr prof2"
    and p2: "p2 = csv_parser_parse env (csvRows prof2)"
    by blast
  from b1 b2 assms(3) have "bytes1 = bytes2"
    by simp
  with r1 r2 have "rows1 = rows2"
    by (simp split: if_splits)
  with q1 q2 have "prof1 = prof2"
    by simp
  with p1 p2 show ?thesis
    by simp
qed

theorem csv_output_deterministic_witness:
  "fst (get_object
          (scripted 1000 99 [[(lit ''amt'', Str (lit ''10''))], [(lit ''amt'', Str (lit ''x''))]])
          (lit ''in'') (lit ''folder/report.2024.xlsx'') 0) =
     fst (get_object
          (scripted 1000 99 [[(lit ''amt'', Str (lit ''10''))], [(lit ''amt'', Str (lit ''x''))]])
          (lit ''in'') (lit ''folder/report.2024.xlsx'') 3)
   \<and> put_body (lit ''summaries/'' @ baseName (lit ''folder/report.2024.xlsx'') @ lit ''.csv'')
        (fst (snd (handler
          (scripted 1000 99 [[(lit ''amt'', Str (lit ''10''))], [(lit ''amt'', Str (lit ''x''))]])
          (lit ''out'') (lit ''in'') (lit ''folder/report.2024.xlsx'') 0))) =
     Some (lit ''__ROWCOUNT__'' @ [0xA] @ lit ''amt'' @ [0xA])
   \<and> put_body (lit ''summaries/'' @ baseName (lit ''folder/report.2024.xlsx'') @ lit ''.csv'')
        (fst (snd (handler
          (scripted 1000 99 [[(lit ''amt'', Str (lit ''10''))], [(lit ''amt'', Str (lit ''x''))]])
          (lit ''out'') (lit ''in'') (lit ''folder/report.2024.xlsx'') 3))) =
     Some (lit ''__ROWCOUNT__'' @ [0xA] @ lit ''amt'' @ [0xA])
   \<and> put_body (lit ''summaries/report.txt'')
        (fst (snd (handler
          (scripted 1000 99 [[(lit ''amt'', Str (lit ''10''))], [(lit ''amt'', Str (lit ''x''))]])
          (lit ''out'') (lit ''in'') (lit ''folder/report.2024.xlsx'') 0))) = Some (lit ''1'')
   \<and> put_body (lit ''summaries/report.txt'')
        (fst (snd (handler
          (scripted 1000 99 [[(lit ''amt'', Str (lit ''10''))], [(lit ''amt'', Str (lit ''x''))]])
          (lit ''out'') (lit ''in'') (lit ''folder/report.2024.xlsx'') 3))) = Some (lit ''4'')"
proof -
  let ?env = "scripted 1000 99 [[(lit ''amt'', Str (lit ''10''))], [(lit ''amt'', Str (lit ''x''))]]"
  let ?key = "lit ''folder/report.2024.xlsx''"
  let ?csv = "lit ''summaries/'' @ baseName ?key @ lit ''.csv''"
  have same: "fst (get_object ?env (lit ''in'') ?key 0) = fst (get_object ?env (lit ''in'') ?key 3)"
    by (simp add: scripted_def)
  have keys: "lit ''summaries/report.txt'' \<noteq> lit ''summaries/report.csv''"
    "lit ''summaries/report.json'' \<noteq> lit ''summaries/report.csv''"
    "lit ''summaries/report.json'' \<noteq> lit ''summaries/report.txt''"
    by (simp_all add: lit_def)
  have csv0: "put_body ?csv (fst (snd (handler ?env (lit ''out'') (lit ''in'') ?key 0))) =
      Some (lit ''__ROWCOUNT__'' @ [0xA] @ lit ''amt'' @ [0xA])"
    by (simp add: run_success example_baseName lit_append keys)
  have csv3: "put_body ?csv (fst (snd (handler ?env (lit ''out'') (lit ''in'') ?key 3))) =
      Some (lit ''__ROWCOUNT__'' @ [0xA] @ lit ''amt'' @ [0xA])"
    by (simp add: run_success_later example_baseName lit_append keys)
  have txt0: "put_body (lit ''summaries/report.txt'')
      (fst (snd (handler ?env (lit ''out'') (lit ''in'') ?key 0))) = Some (lit ''1'')"
    by (simp add: run_success)
  have txt3: "put_body (lit ''summaries/report.txt'')
      (fst (snd (handler ?env (lit ''out'') (lit ''in'') ?key 3))) = Some (lit ''4'')"
    by (simp add: run_success_later)
  from csv_output_deterministic [OF run_success run_success_later same
      csv0 [unfolded run_success fst_conv snd_conv]
      csv3 [unfolded run_success_later fst_conv snd_conv]]
  show ?thesis
    using same csv0 csv3 txt0 txt3 by simp
qed

text \<open>
  C10. A value whose text is a decimal number followed by characters that do not continue
  it (such as \<^verbatim>\<open>"3.5kg"\<close>), with or without white space before it, parses to the Number
  nearest to the decimal number: the decimal number may have a sign, digits before or after
  the point, and an exponent. The result is not NaN, so it is one of the numbers collected
  for its column, from which count, sum, avg, min and max are computed. Examples:
  \<^verbatim>\<open>"3.5kg"\<close> gives 3.5, \<^verbatim>\<open>"-3.5kg"\<close> gives -3.5, \<^verbatim>\<open>"1e3kg"\<close> gives 1000,
  \<^verbatim>\<open>".5kg"\<close> gives 0.5, \<^verbatim>\<open>"5.kg"\<close> gives 5, \<^verbatim>\<open>"2.5E-1 kg"\<close> gives 0.25,
  \<^verbatim>\<open>"0.1kg"\<close> gives the binary64 value nearest to 0.1, and
  \<^verbatim>\<open>"9007199254740993kg"\<close>, which lies halfway between two binary64 values, gives
  9007199254740992. The rows \<^verbatim>\<open>{w:"3.5kg"}\<close>, \<^verbatim>\<open>{w:"-1e1kg"}\<close> give count 2, sum
  -6.5, avg -3.25, min -10 and max 3.5.
\<close>

theorem numeric_prefix_parsed:
  assumes "well_formed d" and "ends_number d t" and "list_all is_white_space ws"
  shows "nearest_number (decimal_value d) (sign d = MinusSign)
       (parseFloat (Str (ws @ decimal_text d @ t)))
     \<and> \<not> isNaN (parseFloat (Str (ws @ decimal_text d @ t)))
     \<and> (row_get r col = Str (ws @ decimal_text d @ t) \<longrightarrow>
          column_nums (rows1 @ r # rows2) col =
            column_nums rows1 col @ parseFloat (Str (ws @ decimal_text d @ t))
              # column_nums rows2 col)
     \<and> parseFloat (Str (lit ''3.5kg'')) = Fin (7 / 2)
     \<and> parseFloat (Str (lit ''-3.5kg'')) = Fin (- 7 / 2)
     \<and> parseFloat (Str (lit ''1e3kg'')) = Fin 1000
     \<and> parseFloat (Str (lit ''.5kg'')) = Fin (1 / 2)
     \<and> parseFloat (Str (lit ''5.kg'')) = Fin 5
     \<and> parseFloat (Str (lit ''2.5E-1 kg'')) = Fin (1 / 4)
     \<and> parseFloat (Str (lit ''0.1kg'')) = Fin (3602879701896397 / 36028797018963968)
     \<and> parseFloat (Str (lit ''9007199254740993kg'')) = Fin 9007199254740992
     \<and> (2 \<le> limit \<longrightarrow>
          buildProfile limit
            [[(lit ''w'', Str (lit ''3.5kg''))], [(lit ''w'', Str (lit ''-1e1kg''))]] =
            Inr \<lparr>rowCount = 2,
                 numericCols =
                   [(lit ''w'',
                     \<lparr>count = 2, sum_val = Fin (- 13 / 2), avg = Fin (- 13 / 4),
                      min_val = Fin (- 10), max_val = Fin (7 / 2)\<rparr>)]\<rparr>)"
proof (intro conjI impI)
  let ?v = "parseFloat (Str (ws @ decimal_text d @ t))"
  show near: "nearest_number (decimal_value d) (sign d = MinusSign) ?v"
    using parse_decimal_nearest [OF assms] by (simp add: parseFloat_def)
  then show n: "\<not> isNaN ?v"
    using nearest_number_not_NaN by (auto simp: isNaN_def)
  show "column_nums (rows1 @ r # rows2) col = column_nums rows1 col @ ?v # column_nums rows2 col"
    if "row_get r col = Str (ws @ decimal_text d @ t)"
    using that n by (simp add: column_nums_append column_nums_Cons)
  show "parseFloat (Str (lit ''3.5kg'')) = Fin (7 / 2)"
    by code_simp
  show "parseFloat (Str (lit ''-3.5kg'')) = Fin (- 7 / 2)"
    by code_simp
  show "parseFloat (Str (lit ''1e3kg'')) = Fin 1000"
    by code_simp
  show "parseFloat (Str (lit ''.5kg'')) = Fin (1 / 2)"
    by code_simp
  show "parseFloat (Str (lit ''5.kg'')) = Fin 5"
    by code_simp
  show "parseFloat (Str (lit ''2.5E-1 kg'')) = Fin (1 / 4)"
    by code_simp
  show "parseFloat (Str (lit ''0.1kg'')) = Fin (3602879701896397 / 36028797018963968)"
    by code_simp
  show "parseFloat (Str (lit ''9007199254740993kg'')) = Fin 9007199254740992"
    by code_simp
  show "buildProfile limit
            [[(lit ''w'', Str (lit ''3.5kg''))], [(lit ''w'', Str (lit ''-1e1kg''))]] =
            Inr \<lparr>rowCount = 2,
                 numericCols =
                   [(lit ''w'',
                     \<lparr>count = 2, sum_val = Fin (- 13 / 2), avg = Fin (- 13 / 4),
                      min_val = Fin (- 10), max_val = Fin (7 / 2)\<rparr>)]\<rparr>"
    if "2 \<le> limit"
  proof -
    have "buildProfile 2
            [[(lit ''w'', Str (lit ''3.5kg''))], [(lit ''w'', Str (lit ''-1e1kg''))]] =
            Inr \<lparr>rowCount = 2,
                 numericCols =
                   [(lit ''w'',
                     \<lparr>count = 2, sum_val = Fin (- 13 / 2), avg = Fin (- 13 / 4),
                      min_val = Fin (- 10), max_val = Fin (7 / 2)\<rparr>)]\<rparr>"
      by code_simp
    then show ?thesis
      using that by (rule buildProfile_mono)
  qed
qed

theorem numeric_prefix_parsed_witness:
  "well_formed
     \<lparr>sign = MinusSign, integer_digits = lit ''3'', fraction_digits = Some (lit ''5''),
      exponent = None\<rparr>
   \<and> ends_number
       \<lparr>sign = MinusSign, integer_digits = lit ''3'', fraction_digits = Some (lit ''5''),
        exponent = None\<rparr> (lit ''kg'')
   \<and> list_all is_white_space (lit '' '')
   \<and> lit '' '' @
       decimal_text
         \<lparr>sign = MinusSign, integer_digits = lit ''3'', fraction_digits = Some (lit ''5''),
          exponent = None\<rparr> @ lit ''kg'' = lit '' -3.5kg''
   \<and> decimal_value
       \<lparr>sign = MinusSign, integer_digits = lit ''3'', fraction_digits = Some (lit ''5''),
        exponent = None\<rparr> = - 7 / 2
   \<and> parseFloat (Str (lit '' -3.5kg'')) = Fin (- 7 / 2)
   \<and> nearest_number (- 7 / 2) True (Fin (- 7 / 2))
   \<and> row_get [(lit ''w'', Str (lit '' -3.5kg''))] (lit ''w'') = Str (lit '' -3.5kg'')
   \<and> column_nums ([] @ [(lit ''w'', Str (lit '' -3.5kg''))] # []) (lit ''w'') = [Fin (- 7 / 2)]"
proof -
  let ?d = "\<lparr>sign = MinusSign, integer_digits = lit ''3'', fraction_digits = Some (lit ''5''),
      exponent = None\<rparr>"
  have wf: "well_formed ?d"
    by code_simp
  have en: "ends_number ?d (lit ''kg'')"
    by (simp add: ends_number_def exponent_start_def lit_def is_digit_def)
  have ws: "list_all is_white_space (lit '' '')"
    by code_simp
  have shape: "lit '' '' @ decimal_text ?d @ lit ''kg'' = lit '' -3.5kg''"
    by code_simp
  have val: "decimal_value ?d = - 7 / 2"
    by code_simp
  have parsed: "parseFloat (Str (lit '' -3.5kg'')) = Fin (- 7 / 2)"
    by code_simp
  have get: "row_get [(lit ''w'', Str (lit '' -3.5kg''))] (lit ''w'') = Str (lit '' -3.5kg'')"
    by (simp add: row_get_def)
  have nil: "column_nums [] (lit ''w'') = []"
    by (simp add: column_nums_def)
  note T = numeric_prefix_parsed [OF wf en ws, unfolded shape val parsed,
      of "[(lit ''w'', Str (lit '' -3.5kg''))]" "lit ''w''" "[]" "[]"]
  have near: "nearest_number (- 7 / 2) True (Fin (- 7 / 2))"
    using T by simp
  have nums: "column_nums ([] @ [(lit ''w'', Str (lit '' -3.5kg''))] # []) (lit ''w'') =
      [Fin (- 7 / 2)]"
    using T get nil by simp
  show ?thesis
    using wf en ws shape val parsed near get nums by simp
qed

end
